theory Spec2Isabelle
  imports
    Main
    "HOL-Library.AList"
    "HOL-Library.Monad_Syntax"
    "HOL-Library.Product_Lexorder"
    "HOL-Library.Sublist"
begin

section \<open>pysrt: the subtitle collection of \<^verbatim>\<open>pysrt/srtfile.py\<close>\<close>

text \<open>
  The development embeds \<^verbatim>\<open>SubRipFile\<close> and \<^verbatim>\<open>merge_dict\<close> of
  \<^verbatim>\<open>src/pysrt/srtfile.py\<close>. The code is read as Python 3: integers are unbounded, a
  list comprehension has a scope of its own (the \<^verbatim>\<open>i\<close> of
  \<^verbatim>\<open>[i.lang_map for i in other_bag]\<close> does not overwrite the pointer \<^verbatim>\<open>i\<close> of
  \<^verbatim>\<open>match\<close>), and a dictionary keeps its keys in insertion order.

  A raised exception is a value: \<open>None\<close> in an \<open>option\<close> result where only the fact of
  raising matters, an explicit exception record where its arguments matter.
  Strings are lists of 8-bit characters, each read as the code point of that number.
\<close>

subsection \<open>Dictionaries\<close>

text \<open>
  A \<^verbatim>\<open>dict\<close> with string keys is an association list in insertion order. \<open>keys\<close>,
  \<open>contains\<close> (\<^verbatim>\<open>key in d\<close>), \<open>dict_getitem\<close> (\<^verbatim>\<open>d[key]\<close>, \<open>None\<close> for
  \<^verbatim>\<open>KeyError\<close>) and \<open>dict_setitem\<close> (\<^verbatim>\<open>d[key] = v\<close>: an existing key keeps
  its place, a new one goes last) are Python's operations on it.
\<close>

type_synonym 'v dict = "(string \<times> 'v) list"

definition keys :: "'v dict \<Rightarrow> string list" where
  "keys d = map fst d"

definition contains :: "'v dict \<Rightarrow> string \<Rightarrow> bool" where
  "contains d key = (key \<in> set (keys d))"

definition dict_getitem :: "'v dict \<Rightarrow> string \<Rightarrow> 'v option" where
  "dict_getitem d key = map_of d key"

definition dict_setitem :: "'v dict \<Rightarrow> string \<Rightarrow> 'v \<Rightarrow> 'v dict" where
  "dict_setitem d key v = AList.update key v d"

text \<open>
  \<^verbatim>\<open>merge_dict(d1, d2)\<close>, lines 432-439. The loop runs over
  \<^verbatim>\<open>set(list(d1.keys()) + list(d2.keys()))\<close>: every key once, in an order Python does not
  fix; \<open>remdups\<close> picks one such order. \<open>merge_value\<close> is the right-hand side that the
  loop body stores under \<^verbatim>\<open>ret[key]\<close>.
\<close>

definition merge_value :: "string dict \<Rightarrow> string dict \<Rightarrow> string \<Rightarrow> string option" where
  "merge_value d1 d2 key =
     (if contains d1 key \<and> contains d2 key
      then do { a \<leftarrow> dict_getitem d1 key; b \<leftarrow> dict_getitem d2 key; Some (a @ b) }
      else if contains d1 key then dict_getitem d1 key else dict_getitem d2 key)"

definition merge_dict :: "string dict \<Rightarrow> string dict \<Rightarrow> string dict option" where
  "merge_dict d1 d2 =
     fold (\<lambda>key acc. do { ret \<leftarrow> acc;
                          v \<leftarrow> merge_value d1 d2 key;
                          Some (dict_setitem ret key v) })
          (remdups (keys d1 @ keys d2)) (Some [])"

subsection \<open>Timestamps, records and collections\<close>

text \<open>
  \<^verbatim>\<open>SubRipTime\<close> and \<^verbatim>\<open>SubRipItem\<close> live in modules that are not part of the sources at
  hand; \<^verbatim>\<open>srtfile.py\<close> reads the attributes \<^verbatim>\<open>ordinal\<close>, \<^verbatim>\<open>index\<close>, \<^verbatim>\<open>start\<close>,
  \<^verbatim>\<open>end\<close>, \<^verbatim>\<open>text\<close> and \<^verbatim>\<open>lang_map\<close>, which are the fields below (\<open>end'\<close> and
  \<open>text'\<close> because \<^verbatim>\<open>end\<close> and \<^verbatim>\<open>text\<close> are reserved words here).
  A \<^verbatim>\<open>SubRipFile\<close> is the \<^verbatim>\<open>UserList\<close> field \<^verbatim>\<open>data\<close> with the attributes set by
  \<^verbatim>\<open>__init__\<close> (\<open>eol'\<close> is \<^verbatim>\<open>_eol\<close>). Its element type is a parameter: record values
  where a function only reads or rebuilds the records, references into a store where the
  identity of a record matters.
\<close>

record SubRipTime =
  ordinal :: int

record SubRipItem =
  index :: int
  start :: SubRipTime
  end' :: SubRipTime
  text' :: string
  lang_map :: "string dict"

record 'a SubRipFile =
  data :: "'a list"
  eol' :: "string option"
  path :: "string option"
  encoding :: string
  lang_stat :: "nat dict"
  langs :: "string list"

definition new_SubRipFile :: "'a SubRipFile" where
  \<comment> \<open>\<^verbatim>\<open>SubRipFile()\<close>: \<^verbatim>\<open>__init__\<close> with its defaults, lines 52-58.\<close>
  "new_SubRipFile =
     \<lparr>data = [], eol' = None, path = None, encoding = ''utf-8'', lang_stat = [], langs = []\<rparr>"

definition new_SubRipItem :: "SubRipTime \<Rightarrow> SubRipTime \<Rightarrow> string dict \<Rightarrow> SubRipItem" where
  \<comment> \<open>Modelled from the spec: the constructor call
      \<^verbatim>\<open>SubRipItem(start=s, end=e, lang_map=m)\<close> of the missing module \<^verbatim>\<open>srtitem.py\<close>. It
      stores the three arguments; the fields it is not given are left at index 0 and empty
      text, and nothing below depends on them.\<close>
  "new_SubRipItem s e m = \<lparr>index = 0, start = s, end' = e, text' = [], lang_map = m\<rparr>"

definition getitem :: "'a list \<Rightarrow> nat \<Rightarrow> 'a option" where
  \<comment> \<open>\<^verbatim>\<open>xs[i]\<close> for a pointer \<open>i \<ge> 0\<close>; \<open>None\<close> is \<^verbatim>\<open>IndexError\<close>.\<close>
  "getitem xs i = (if i < length xs then Some (xs ! i) else None)"

fun reduce :: "('a \<Rightarrow> 'a \<Rightarrow> 'a option) \<Rightarrow> 'a list \<Rightarrow> 'a option" where
  \<comment> \<open>\<^verbatim>\<open>functools.reduce(f, xs)\<close> without an initial value; \<open>None\<close> on an empty list is
      its \<^verbatim>\<open>TypeError\<close>, and an exception of \<open>f\<close> propagates.\<close>
  "reduce f [] = None"
| "reduce f (x # xs) = fold (\<lambda>element value. do { v \<leftarrow> value; f v element }) xs (Some x)"

subsection \<open>The aligner \<^verbatim>\<open>SubRipFile.match\<close>, lines 337-416\<close>

declare Option.bind_cong [fundef_cong]

text \<open>
  The inner loop of branch 1.2 (lines 378-381): while a next record of \<^verbatim>\<open>other\<close> exists and
  its end is less than 1000 ms past the end of \<^verbatim>\<open>self[i]\<close>, advance \<open>j\<close> and append
  \<^verbatim>\<open>other[j]\<close> to \<^verbatim>\<open>other_bag\<close>. The loop leaves \<open>j\<close> and the bag.
\<close>

function collect_other ::
  "SubRipItem list \<Rightarrow> SubRipItem list \<Rightarrow> nat \<Rightarrow> nat \<Rightarrow> SubRipItem list
     \<Rightarrow> (nat \<times> SubRipItem list) option" where
  "collect_other self other i j other_bag =
     (if j + 1 < length other then
        do { nxt \<leftarrow> getitem other (j + 1);
             si \<leftarrow> getitem self i;
             if ordinal (end' nxt) - ordinal (end' si) < 1000
             then collect_other self other i (j + 1) (other_bag @ [nxt])
             else Some (j, other_bag) }
      else Some (j, other_bag))"
  by pat_completeness auto

termination
  by (relation "measure (\<lambda>(self, other, i, j, other_bag). length other - j)") auto

text \<open>The inner loop of branch 1.3 (lines 397-399), the same with the roles exchanged.\<close>

function collect_self ::
  "SubRipItem list \<Rightarrow> SubRipItem list \<Rightarrow> nat \<Rightarrow> nat \<Rightarrow> SubRipItem list
     \<Rightarrow> (nat \<times> SubRipItem list) option" where
  "collect_self self other i j self_bag =
     (if i + 1 < length self then
        do { nxt \<leftarrow> getitem self (i + 1);
             oj \<leftarrow> getitem other j;
             if ordinal (end' nxt) - ordinal (end' oj) < 1000
             then collect_self self other (i + 1) j (self_bag @ [nxt])
             else Some (i, self_bag) }
      else Some (i, self_bag))"
  by pat_completeness auto

termination
  by (relation "measure (\<lambda>(self, other, i, j, self_bag). length self - i)") auto

definition emit ::
  "SubRipItem list \<Rightarrow> SubRipItem \<Rightarrow> string dict list \<Rightarrow> SubRipItem list option" where
  \<comment> \<open>\<^verbatim>\<open>l_map = reduce(merge_dict, maps)\<close> and
      \<^verbatim>\<open>ret.append(SubRipItem(start=item.start, end=item.end, lang_map=l_map))\<close>.\<close>
  "emit ret item maps =
     do { l_map \<leftarrow> reduce merge_dict maps;
          Some (ret @ [new_SubRipItem (start item) (end' item) l_map]) }"

text \<open>
  Branch 1.2, lines 369-390 (\<^verbatim>\<open>end_delta > 1000\<close>): the guard of line 372 skips the pair;
  otherwise the records of \<^verbatim>\<open>other\<close> from \<open>j\<close> on are gathered, one merged record is
  emitted when the last gathered record ends within 1000 ms of \<^verbatim>\<open>self[i]\<close>, and both
  pointers step once more. The merged \<^verbatim>\<open>lang_map\<close> is reduced from the bag alone.
\<close>

definition match_other_group ::
  "SubRipItem list \<Rightarrow> SubRipItem list \<Rightarrow> nat \<Rightarrow> nat \<Rightarrow> SubRipItem list
     \<Rightarrow> (nat \<times> nat \<times> SubRipItem list) option" where
  "match_other_group self other i j ret =
     do { si \<leftarrow> getitem self i;
          skip \<leftarrow> (if j + 1 < length other
                    then do { nxt \<leftarrow> getitem other (j + 1);
                              Some (ordinal (end' nxt) - ordinal (end' si) > 1000) }
                    else Some False);
          if skip then Some (i + 1, j + 1, ret)
          else do {
            oj \<leftarrow> getitem other j;
            (j', other_bag) \<leftarrow> collect_other self other i j [oj];
            oj' \<leftarrow> getitem other j';
            ret' \<leftarrow> (if \<bar>ordinal (end' oj') - ordinal (end' si)\<bar> < 1000
                      then emit ret si (map lang_map other_bag)
                      else Some ret);
            Some (i + 1, j' + 1, ret') } }"

text \<open>
  Branch 1.3, lines 391-407 (\<^verbatim>\<open>end_delta < -1000\<close>). The emitted record takes its start and
  end from \<^verbatim>\<open>self[i]\<close> after the inner loop has advanced \<open>i\<close>.
\<close>

definition match_self_group ::
  "SubRipItem list \<Rightarrow> SubRipItem list \<Rightarrow> nat \<Rightarrow> nat \<Rightarrow> SubRipItem list
     \<Rightarrow> (nat \<times> nat \<times> SubRipItem list) option" where
  "match_self_group self other i j ret =
     do { oj \<leftarrow> getitem other j;
          skip \<leftarrow> (if i + 1 < length self
                    then do { nxt \<leftarrow> getitem self (i + 1);
                              Some (ordinal (end' nxt) - ordinal (end' oj) > 1000) }
                    else Some False);
          if skip then Some (i + 1, j + 1, ret)
          else do {
            si \<leftarrow> getitem self i;
            (i', self_bag) \<leftarrow> collect_self self other i j [si];
            si' \<leftarrow> getitem self i';
            ret' \<leftarrow> (if \<bar>ordinal (end' si') - ordinal (end' oj)\<bar> < 1000
                      then emit ret si' (map lang_map self_bag)
                      else Some ret);
            Some (i' + 1, j + 1, ret') } }"

text \<open>
  One pass through the body of the outer \<^verbatim>\<open>while\<close>, lines 350-411, from the pointers
  \<open>i\<close>, \<open>j\<close> and the output \<open>ret\<close> to their values when control returns to the loop
  test. The three tests on \<^verbatim>\<open>end_delta\<close> have no \<^verbatim>\<open>else\<close>: were none to hold, the body
  would change nothing.
\<close>

definition match_step ::
  "SubRipItem list \<Rightarrow> SubRipItem list \<Rightarrow> nat \<Rightarrow> nat \<Rightarrow> SubRipItem list
     \<Rightarrow> (nat \<times> nat \<times> SubRipItem list) option" where
  "match_step self other i j ret =
     do { si \<leftarrow> getitem self i;
          oj \<leftarrow> getitem other j;
          let start_delta = ordinal (start si) - ordinal (start oj);
              end_delta = ordinal (end' si) - ordinal (end' oj)
          in if \<bar>start_delta\<bar> \<le> 1000 then
               if \<bar>end_delta\<bar> \<le> 1000 then
                 do { ret' \<leftarrow> emit ret si [lang_map si, lang_map oj];
                      Some (i + 1, j + 1, ret') }
               else if end_delta > 1000 then match_other_group self other i j ret
               else if end_delta < - 1000 then match_self_group self other i j ret
               else Some (i, j, ret)
             else if start_delta < - 1000 then Some (i + 1, j, ret)
             else Some (i, j + 1, ret) }"

text \<open>
  \<^verbatim>\<open>collections.Counter(elems)\<close> counts each element as it comes:
  \<^verbatim>\<open>c[elem] = c.get(elem, 0) + 1\<close>. Reading a missing key of a Counter gives 0.
\<close>

definition counter_getitem :: "nat dict \<Rightarrow> string \<Rightarrow> nat" where
  "counter_getitem c key = (case dict_getitem c key of None \<Rightarrow> 0 | Some n \<Rightarrow> n)"

definition Counter :: "string list \<Rightarrow> nat dict" where
  "Counter elems = fold (\<lambda>elem c. dict_setitem c elem (counter_getitem c elem + 1)) elems []"

definition lang_statistics :: "SubRipItem list \<Rightarrow> nat dict" where
  \<comment> \<open>\<^verbatim>\<open>Counter(chain.from_iterable([i.lang_map.keys() for i in ret]))\<close>, line 413.\<close>
  "lang_statistics ret = Counter (concat (map (\<lambda>i. keys (lang_map i)) ret))"

definition dominant_langs :: "SubRipItem list \<Rightarrow> nat dict \<Rightarrow> string list" where
  \<comment> \<open>\<^verbatim>\<open>[key for key in stat if stat[key] > int(len(ret)/10)]\<close>, line 414. The quotient
      of a list length by 10 is far below the range where the float division and the
      truncation of \<^verbatim>\<open>int\<close> differ from the integer quotient.\<close>
  "dominant_langs ret stat =
     filter (\<lambda>key. counter_getitem stat key > length ret div 10) (keys stat)"

subsection \<open>The outer loop and \<^verbatim>\<open>match\<close>\<close>

text \<open>
  The \<^verbatim>\<open>while i < self_num and j < other_num\<close> loop of lines 348-411. It is defined by
  recursion on the state the body leaves. The recursion is well founded because every pass
  through the body moves a pointer forward; that is proved with the facts about the loop
  body, where the termination proofs of this function and of the next one stand.
\<close>

function match_loop ::
  "SubRipItem list \<Rightarrow> SubRipItem list \<Rightarrow> nat \<Rightarrow> nat \<Rightarrow> SubRipItem list
     \<Rightarrow> SubRipItem list option" where
  "match_loop self other i j ret =
     (if i < length self \<and> j < length other then
        (case match_step self other i j ret of
           None \<Rightarrow> None
         | Some (i', j', ret') \<Rightarrow> match_loop self other i' j' ret')
      else Some ret)"
  by pat_completeness auto

text \<open>The number of passes through the body of the outer loop, counted along the same recursion.\<close>

function match_iterations ::
  "SubRipItem list \<Rightarrow> SubRipItem list \<Rightarrow> nat \<Rightarrow> nat \<Rightarrow> SubRipItem list \<Rightarrow> nat" where
  "match_iterations self other i j ret =
     (if i < length self \<and> j < length other then
        (case match_step self other i j ret of
           None \<Rightarrow> 1
         | Some (i', j', ret') \<Rightarrow> 1 + match_iterations self other i' j' ret')
      else 0)"
  by pat_completeness auto

text \<open>
  \<^verbatim>\<open>match(self, other)\<close>: the loop from \<open>i = j = 0\<close> with the empty data of a fresh
  \<^verbatim>\<open>SubRipFile()\<close>, then the two assignments of lines 413-414 to the attributes of the
  result.
\<close>

definition match ::
  "SubRipItem SubRipFile \<Rightarrow> SubRipItem SubRipFile \<Rightarrow> SubRipItem SubRipFile option" where
  "match self other =
     do { ret \<leftarrow> match_loop (data self) (data other) 0 0 [];
          let stat = lang_statistics ret
          in Some (new_SubRipFile
                     \<lparr>data := ret, lang_stat := stat, langs := dominant_langs ret stat\<rparr>) }"

text \<open>
  The alignment scenario of the specification: one record of \<^verbatim>\<open>self\<close> from 1000 to 3000
  with the map \<^verbatim>\<open>{"en": "hi"}\<close>, and two records of \<^verbatim>\<open>other\<close>, 1050 to 1900 with
  \<^verbatim>\<open>{"fr": "bonjour"}\<close> and 1950 to 2950 with \<^verbatim>\<open>{"fr": "monde"}\<close>.
\<close>

definition scenario_self :: "SubRipItem SubRipFile" where
  "scenario_self =
     new_SubRipFile
       \<lparr>data := [new_SubRipItem \<lparr>ordinal = 1000\<rparr> \<lparr>ordinal = 3000\<rparr> [(''en'', ''hi'')]]\<rparr>"

definition scenario_other :: "SubRipItem SubRipFile" where
  "scenario_other =
     new_SubRipFile
       \<lparr>data := [new_SubRipItem \<lparr>ordinal = 1050\<rparr> \<lparr>ordinal = 1900\<rparr> [(''fr'', ''bonjour'')],
                 new_SubRipItem \<lparr>ordinal = 1950\<rparr> \<lparr>ordinal = 2950\<rparr> [(''fr'', ''monde'')]]\<rparr>"

subsection \<open>The serializer \<^verbatim>\<open>SubRipFile.write_into\<close>, lines 254-275\<close>








subsection \<open>\<^verbatim>\<open>SubRipFile.clean_indexes\<close>, lines 134-143\<close>




subsection \<open>Records by reference: \<^verbatim>\<open>slice\<close> (lines 68-99) and \<^verbatim>\<open>shift\<close> (lines 117-132)\<close>

text \<open>
  \<^verbatim>\<open>slice\<close> returns a second collection over the records of the first, and \<^verbatim>\<open>shift\<close>
  mutates records in place, so here a collection holds references and the records live in a
  store. A reference always leads to a record, hence the store is a total function.
  Timestamps are kept by value inside their record.
\<close>

type_synonym ref = nat

type_synonym store = "ref \<Rightarrow> SubRipItem"

definition time_lt :: "SubRipTime \<Rightarrow> SubRipTime \<Rightarrow> bool" where
  \<comment> \<open>Modelled from the spec: \<^verbatim>\<open>a < b\<close> on timestamps, whose comparison methods are in
      the missing module \<^verbatim>\<open>srttime.py\<close>: the total order by ordinal.\<close>
  "time_lt a b = (ordinal a < ordinal b)"

definition time_gt :: "SubRipTime \<Rightarrow> SubRipTime \<Rightarrow> bool" where
  \<comment> \<open>Modelled from the spec: \<^verbatim>\<open>a > b\<close> on timestamps, by ordinal.\<close>
  "time_gt a b = (ordinal a > ordinal b)"

text \<open>
  A bound is any Python value that can be coerced to a timestamp, or \<^verbatim>\<open>None\<close> when the
  argument is left out. Its truth value (the test \<^verbatim>\<open>if starts_before:\<close>) and its coercion,
  which the missing comparison methods perform, are the parameters \<open>truthy\<close> and \<open>coerce\<close>.
  \<open>bound_filter\<close> is one of the four statements
  \<^verbatim>\<open>if bound: clone.data = (i for i in clone.data if cond)\<close>; the generators are consumed by
  \<^verbatim>\<open>list(clone.data)\<close> before anything changes, so each is the filter it denotes.
\<close>

definition bound_filter ::
  "('b \<Rightarrow> bool) \<Rightarrow> 'b option \<Rightarrow> ('b \<Rightarrow> ref \<Rightarrow> bool) \<Rightarrow> ref list \<Rightarrow> ref list" where
  "bound_filter truthy bound cond d =
     (case bound of None \<Rightarrow> d | Some b \<Rightarrow> if truthy b then filter (cond b) d else d)"

definition slice ::
  "('b \<Rightarrow> bool) \<Rightarrow> ('b \<Rightarrow> SubRipTime) \<Rightarrow> store \<Rightarrow> ref SubRipFile
     \<Rightarrow> 'b option \<Rightarrow> 'b option \<Rightarrow> 'b option \<Rightarrow> 'b option \<Rightarrow> ref SubRipFile" where
  \<comment> \<open>\<^verbatim>\<open>clone = copy(self)\<close> copies the attributes and the list of references, not the
      records; the store is read and not written.\<close>
  "slice truthy coerce h self starts_before starts_after ends_before ends_after =
     (let clone = self;
          d = data clone;
          d = bound_filter truthy starts_before (\<lambda>b i. time_lt (start (h i)) (coerce b)) d;
          d = bound_filter truthy starts_after (\<lambda>b i. time_gt (start (h i)) (coerce b)) d;
          d = bound_filter truthy ends_before (\<lambda>b i. time_lt (end' (h i)) (coerce b)) d;
          d = bound_filter truthy ends_after (\<lambda>b i. time_gt (end' (h i)) (coerce b)) d
      in clone\<lparr>data := d\<rparr>)"

definition shift :: "(SubRipItem \<Rightarrow> SubRipItem) \<Rightarrow> store \<Rightarrow> ref SubRipFile \<Rightarrow> store" where
  \<comment> \<open>\<^verbatim>\<open>for item in self: item.shift(*args, **kwargs)\<close>. What \<^verbatim>\<open>SubRipItem.shift\<close> does to
      a record for the given arguments is the parameter \<open>item_shift\<close> (the method is in the
      missing module \<^verbatim>\<open>srtitem.py\<close>).\<close>
  "shift item_shift h self = fold (\<lambda>item h. h(item := item_shift (h item))) (data self) h"

definition bound_holds :: "('b \<Rightarrow> bool) \<Rightarrow> 'b option \<Rightarrow> ('b \<Rightarrow> bool) \<Rightarrow> bool" where
  \<comment> \<open>A bound constrains a record when it is supplied and truthy, and not otherwise.\<close>
  "bound_holds truthy bound cond =
     (case bound of None \<Rightarrow> True | Some b \<Rightarrow> if truthy b then cond b else True)"

text \<open>
  Python integers as bounds: an \<^verbatim>\<open>int\<close> is falsy exactly when it is zero, and it stands for
  the timestamp of that many milliseconds.
\<close>

definition int_truthy :: "int \<Rightarrow> bool" where
  "int_truthy n = (n \<noteq> 0)"

definition int_coerce :: "int \<Rightarrow> SubRipTime" where
  \<comment> \<open>Modelled from the spec: a timestamp is constructed from milliseconds directly.\<close>
  "int_coerce n = \<lparr>ordinal = n\<rparr>"

text \<open>
  A store of three records, starting at 0, 2000 and 4000 ms, and the collection that lists
  them.
\<close>

definition demo_store :: store where
  "demo_store r =
     \<lparr>index = int r + 1, start = \<lparr>ordinal = 2000 * int r\<rparr>,
      end' = \<lparr>ordinal = 2000 * int r + 1000\<rparr>, text' = [], lang_map = []\<rparr>"

definition demo_file :: "ref SubRipFile" where
  "demo_file = new_SubRipFile\<lparr>data := [0, 1, 2]\<rparr>"

definition delay :: "int \<Rightarrow> SubRipItem \<Rightarrow> SubRipItem" where
  \<comment> \<open>Modelled from the spec: \<^verbatim>\<open>item.shift(milliseconds=ms)\<close> adds the offset to the
      start and to the end of the record.\<close>
  "delay ms item =
     item\<lparr>start := \<lparr>ordinal = ordinal (start item) + ms\<rparr>,
          end' := \<lparr>ordinal = ordinal (end' item) + ms\<rparr>\<rparr>"

subsection \<open>The streaming parser \<^verbatim>\<open>SubRipFile.stream\<close>, lines 206-237 and 325-334\<close>

text \<open>
  An exception is a record of what the code looks at: whether it is an instance of
  \<^verbatim>\<open>pysrt.srtexc.Error\<close> (what \<^verbatim>\<open>except Error\<close> catches), the name of its type, and its
  \<^verbatim>\<open>args\<close>, a tuple of integers and strings.
\<close>

datatype pyval = PyInt int | PyStr string

record exception =
  is_Error :: bool
  type_name :: string
  args :: "pyval list"

definition ERROR_PASS :: int where "ERROR_PASS = 0"

definition ERROR_LOG :: int where "ERROR_LOG = 1"

definition ERROR_RAISE :: int where "ERROR_RAISE = 2"

definition isspace :: "char \<Rightarrow> bool" where
  \<comment> \<open>The whitespace of \<^verbatim>\<open>str.strip()\<close> among the code points below 256.\<close>
  "isspace c = (let n = (of_char c :: nat)
                in (9 \<le> n \<and> n \<le> 13) \<or> (28 \<le> n \<and> n \<le> 32) \<or> n = 133 \<or> n = 160)"

definition strip :: "string \<Rightarrow> string" where
  "strip s = rev (dropWhile isspace (rev (dropWhile isspace s)))"

text \<open>
  The generator's state between two lines: the local \<^verbatim>\<open>string_buffer\<close>, the records yielded
  so far, the text written to \<^verbatim>\<open>sys.stderr\<close>, and the exception that ended the generator, if
  one did.
\<close>

record stream_state =
  string_buffer :: "string list"
  yielded :: "SubRipItem list"
  stderr :: string
  raised :: "exception option"

definition handle_error ::
  "(exception \<Rightarrow> nat \<Rightarrow> string \<times> exception option) \<Rightarrow> exception \<Rightarrow> int \<Rightarrow> nat
     \<Rightarrow> string \<times> exception option" where
  \<comment> \<open>\<^verbatim>\<open>_handle_error(error, error_handling, index)\<close>: the text it writes to
      \<^verbatim>\<open>sys.stderr\<close> and the exception it raises, if any. The three writes of the
      \<^verbatim>\<open>ERROR_LOG\<close> branch go to an object outside this module; what they write and whether
      they raise is the parameter \<open>log_error\<close>.\<close>
  "handle_error log_error error error_handling lineno =
     (if error_handling = ERROR_RAISE
      then ([], Some (error\<lparr>args := PyInt (int lineno) # args error\<rparr>))
      else if error_handling = ERROR_LOG then log_error error lineno
      else ([], None))"

definition stream_step ::
  "(string list \<Rightarrow> exception + SubRipItem) \<Rightarrow> (exception \<Rightarrow> nat \<Rightarrow> string \<times> exception option)
     \<Rightarrow> int \<Rightarrow> nat \<Rightarrow> string \<Rightarrow> stream_state \<Rightarrow> stream_state" where
  \<comment> \<open>The body of the \<^verbatim>\<open>for index, line in enumerate(...)\<close> loop, lines 227-237;
      \<open>lineno\<close> is \<^verbatim>\<open>index\<close>. \<open>from_lines\<close> is \<^verbatim>\<open>SubRipItem.from_lines\<close> of the missing
      module \<^verbatim>\<open>srtitem.py\<close>, a parameter: it returns a record or raises.\<close>
  "stream_step from_lines log_error error_handling lineno line s =
     (if strip line \<noteq> [] then s\<lparr>string_buffer := string_buffer s @ [line]\<rparr>
      else
        let source = string_buffer s;
            s = s\<lparr>string_buffer := []\<rparr>
        in if source \<noteq> [] \<and> list_all (\<lambda>l. l \<noteq> []) source then
             (case from_lines source of
                Inr item \<Rightarrow> s\<lparr>yielded := yielded s @ [item]\<rparr>
              | Inl error \<Rightarrow>
                  if is_Error error then
                    (let error = error\<lparr>args := args error @ [PyStr (concat source)]\<rparr>;
                         (written, exn) = handle_error log_error error error_handling lineno
                     in s\<lparr>stderr := stderr s @ written, raised := exn\<rparr>)
                  else s\<lparr>raised := Some error\<rparr>)
           else s)"

fun stream_loop ::
  "(string list \<Rightarrow> exception + SubRipItem) \<Rightarrow> (exception \<Rightarrow> nat \<Rightarrow> string \<times> exception option)
     \<Rightarrow> int \<Rightarrow> (nat \<times> string) list \<Rightarrow> stream_state \<Rightarrow> stream_state" where
  \<comment> \<open>The loop stops at the first exception that leaves the body.\<close>
  "stream_loop from_lines log_error error_handling [] s = s"
| "stream_loop from_lines log_error error_handling ((lineno, line) # rest) s =
     (let s' = stream_step from_lines log_error error_handling lineno line s
      in if raised s' = None then stream_loop from_lines log_error error_handling rest s'
         else s')"

definition stream ::
  "(string list \<Rightarrow> exception + SubRipItem) \<Rightarrow> (exception \<Rightarrow> nat \<Rightarrow> string \<times> exception option)
     \<Rightarrow> int \<Rightarrow> string list \<Rightarrow> stream_state" where
  \<comment> \<open>\<^verbatim>\<open>chain(source_file, '\n')\<close> adds one line, the newline, after the lines of the
      source.\<close>
  "stream from_lines log_error error_handling source_file =
     stream_loop from_lines log_error error_handling
       (enumerate 0 (source_file @ [[CHR 0x0A]]))
       \<lparr>string_buffer = [], yielded = [], stderr = [], raised = None\<rparr>"

text \<open>
  A stand-in for the block parser, to run the loop on the three-block input of the
  specification: a block of fewer than two lines raises an \<^verbatim>\<open>Error\<close> without arguments,
  any other block becomes a record that keeps its text lines.
\<close>

definition demo_from_lines :: "string list \<Rightarrow> exception + SubRipItem" where
  "demo_from_lines lines =
     (if length lines < 2 then Inl \<lparr>is_Error = True, type_name = ''InvalidItem'', args = []\<rparr>
      else Inr \<lparr>index = 0, start = \<lparr>ordinal = 0\<rparr>, end' = \<lparr>ordinal = 0\<rparr>,
                text' = concat (drop 2 lines), lang_map = []\<rparr>)"

definition demo_lines :: "string list" where
  "demo_lines =
     [''1\<newline>'', ''00:00:01,000 --> 00:00:02,000\<newline>'', ''Hello\<newline>'', ''\<newline>'',
      ''BAD\<newline>'', ''\<newline>'',
      ''2\<newline>'', ''00:00:03,000 --> 00:00:04,000\<newline>'', ''World\<newline>'', ''\<newline>'']"

section \<open>Facts and claims\<close>

subsection \<open>Facts about dictionaries\<close>

lemma contains_iff: "contains d key \<longleftrightarrow> dict_getitem d key \<noteq> None"
  by (simp add: contains_def keys_def dict_getitem_def map_of_eq_None_iff)

lemma getitem_setitem:
  "dict_getitem (dict_setitem d key v) k = (if k = key then Some v else dict_getitem d k)"
  by (simp add: dict_getitem_def dict_setitem_def update_conv')

lemma keys_setitem: "set (keys (dict_setitem d key v)) = insert key (set (keys d))"
  using dom_update [of key v d] by (simp add: keys_def dict_setitem_def dom_map_of_conv_image_fst)

lemma distinct_setitem: "distinct (keys d) \<Longrightarrow> distinct (keys (dict_setitem d key v))"
  by (simp add: keys_def dict_setitem_def distinct_update)

lemma merge_value_eq:
  "merge_value d1 d2 key =
     (case (dict_getitem d1 key, dict_getitem d2 key) of
        (Some a, Some b) \<Rightarrow> Some (a @ b)
      | (Some a, None) \<Rightarrow> Some a
      | (None, Some b) \<Rightarrow> Some b
      | (None, None) \<Rightarrow> None)"
  by (auto simp: merge_value_def contains_iff split: option.splits)

lemma merge_value_Some:
  "key \<in> set (keys d1) \<union> set (keys d2) \<Longrightarrow> \<exists>v. merge_value d1 d2 key = Some v"
  using contains_iff [of d1 key] contains_iff [of d2 key]
  by (auto simp: merge_value_eq contains_def split: option.splits)

lemma merge_fold:
  assumes "set ks \<subseteq> set (keys d1) \<union> set (keys d2)"
  shows "\<exists>ret. fold (\<lambda>key acc. do { ret \<leftarrow> acc; v \<leftarrow> merge_value d1 d2 key;
                                   Some (dict_setitem ret key v) }) ks (Some r) = Some ret
           \<and> (distinct (keys r) \<longrightarrow> distinct (keys ret))
           \<and> set (keys ret) = set (keys r) \<union> set ks
           \<and> (\<forall>k. dict_getitem ret k =
                 (if k \<in> set ks then merge_value d1 d2 k else dict_getitem r k))"
  using assms
proof (induction ks arbitrary: r)
  case Nil
  then show ?case by simp
next
  case (Cons key ks)
  from Cons.prems obtain v where v: "merge_value d1 d2 key = Some v"
    using merge_value_Some [of key d1 d2] by auto
  from Cons.prems have sub: "set ks \<subseteq> set (keys d1) \<union> set (keys d2)" by simp
  from Cons.IH [OF sub, of "dict_setitem r key v"] obtain ret where
    ret: "fold (\<lambda>key acc. do { ret \<leftarrow> acc; v \<leftarrow> merge_value d1 d2 key;
                               Some (dict_setitem ret key v) }) ks
            (Some (dict_setitem r key v)) = Some ret"
    and d: "distinct (keys (dict_setitem r key v)) \<longrightarrow> distinct (keys ret)"
    and k: "set (keys ret) = set (keys (dict_setitem r key v)) \<union> set ks"
    and g: "\<forall>k. dict_getitem ret k =
              (if k \<in> set ks then merge_value d1 d2 k else dict_getitem (dict_setitem r key v) k)"
    by blast
  have "fold (\<lambda>key acc. do { ret \<leftarrow> acc; v \<leftarrow> merge_value d1 d2 key;
                              Some (dict_setitem ret key v) }) (key # ks) (Some r) = Some ret"
    using ret v by simp
  moreover have "distinct (keys r) \<longrightarrow> distinct (keys ret)"
    using d distinct_setitem [of r key v] by simp
  moreover have "set (keys ret) = set (keys r) \<union> set (key # ks)"
    using k by (simp add: keys_setitem)
  moreover have "\<forall>k. dict_getitem ret k =
      (if k \<in> set (key # ks) then merge_value d1 d2 k else dict_getitem r k)"
    using g v by (simp add: getitem_setitem)
  ultimately show ?case by blast
qed

subsection \<open>Claims about \<^verbatim>\<open>merge_dict\<close>\<close>

text \<open>
  C3. For every pair of language maps \<open>d1\<close>, \<open>d2\<close>, \<^verbatim>\<open>merge_dict(d1, d2)\<close> returns (it
  raises nothing) a dictionary whose key set is the union of the two key sets; a key of both maps
  carries \<open>d1\<close>'s value followed by \<open>d2\<close>'s value with nothing between them, and a key of
  exactly one map carries that map's value unchanged. The result is a well-formed dictionary:
  no key occurs twice.
\<close>

theorem merge_dict_union_concat:
  "\<exists>ret. merge_dict d1 d2 = Some ret
      \<and> distinct (keys ret)
      \<and> set (keys ret) = set (keys d1) \<union> set (keys d2)
      \<and> (\<forall>key. dict_getitem ret key =
            (case (dict_getitem d1 key, dict_getitem d2 key) of
               (Some a, Some b) \<Rightarrow> Some (a @ b)
             | (Some a, None) \<Rightarrow> Some a
             | (None, Some b) \<Rightarrow> Some b
             | (None, None) \<Rightarrow> None))"
proof -
  have sub: "set (remdups (keys d1 @ keys d2)) \<subseteq> set (keys d1) \<union> set (keys d2)"
    by simp
  from merge_fold [OF sub, of "[]"] obtain ret where
    ret: "merge_dict d1 d2 = Some ret"
    and d: "distinct (keys ret)"
    and k: "set (keys ret) = set (keys d1) \<union> set (keys d2)"
    and g: "\<forall>k. dict_getitem ret k =
              (if k \<in> set (keys d1) \<union> set (keys d2) then merge_value d1 d2 k
               else dict_getitem [] k)"
    unfolding merge_dict_def by (auto simp: keys_def)
  have "dict_getitem ret key =
          (case (dict_getitem d1 key, dict_getitem d2 key) of
             (Some a, Some b) \<Rightarrow> Some (a @ b)
           | (Some a, None) \<Rightarrow> Some a
           | (None, Some b) \<Rightarrow> Some b
           | (None, None) \<Rightarrow> None)" for key
    using g contains_iff [of d1 key] contains_iff [of d2 key]
    by (auto simp: merge_value_eq contains_def dict_getitem_def split: option.splits)
  with ret d k show ?thesis by blast
qed

subsection \<open>Facts about the loop body\<close>

declare collect_other.simps [simp del] collect_self.simps [simp del]

lemma getitem_Some: "i < length xs \<Longrightarrow> getitem xs i = Some (xs ! i)"
  by (simp add: getitem_def)

lemma collect_other_Some:
  "i < length self \<Longrightarrow> j < length other \<Longrightarrow>
     \<exists>j'. collect_other self other i j other_bag =
             Some (j', other_bag @ take (j' - j) (drop (j + 1) other))
          \<and> j \<le> j' \<and> j' < length other"
proof (induction self other i j other_bag rule: collect_other.induct)
  case (1 self other i j other_bag)
  show ?case
  proof (cases "j + 1 < length other
                  \<and> ordinal (end' (other ! (j + 1))) - ordinal (end' (self ! i)) < 1000")
    case True
    then have "collect_other self other i j other_bag =
                 collect_other self other i (j + 1) (other_bag @ [other ! (j + 1)])"
      using "1.prems" by (subst collect_other.simps) (simp add: getitem_Some)
    moreover from "1.IH" [of "other ! (j + 1)" "self ! i"] True "1.prems"
    obtain j' where
      "collect_other self other i (j + 1) (other_bag @ [other ! (j + 1)]) =
         Some (j', (other_bag @ [other ! (j + 1)]) @ take (j' - (j + 1)) (drop (j + 1 + 1) other))"
      "j + 1 \<le> j'" "j' < length other"
      by (auto simp: getitem_Some)
    moreover have "[other ! (j + 1)] @ take (j' - (j + 1)) (drop (j + 1 + 1) other)
                     = take (j' - j) (drop (j + 1) other)"
      if "j + 1 \<le> j'" "j' < length other" for j'
    proof -
      from that have "drop (j + 1) other = other ! (j + 1) # drop (j + 1 + 1) other"
        by (simp add: Cons_nth_drop_Suc)
      moreover from that have "j' - j = Suc (j' - (j + 1))" by simp
      ultimately show ?thesis by simp
    qed
    ultimately show ?thesis by force
  next
    case False
    then have "collect_other self other i j other_bag = Some (j, other_bag)"
      using "1.prems" by (subst collect_other.simps) (auto simp: getitem_Some)
    then show ?thesis using "1.prems" by simp
  qed
qed

lemma collect_self_Some:
  "i < length self \<Longrightarrow> j < length other \<Longrightarrow>
     \<exists>i'. collect_self self other i j self_bag =
             Some (i', self_bag @ take (i' - i) (drop (i + 1) self))
          \<and> i \<le> i' \<and> i' < length self"
proof (induction self other i j self_bag rule: collect_self.induct)
  case (1 self other i j self_bag)
  show ?case
  proof (cases "i + 1 < length self
                  \<and> ordinal (end' (self ! (i + 1))) - ordinal (end' (other ! j)) < 1000")
    case True
    then have "collect_self self other i j self_bag =
                 collect_self self other (i + 1) j (self_bag @ [self ! (i + 1)])"
      using "1.prems" by (subst collect_self.simps) (simp add: getitem_Some)
    moreover from "1.IH" [of "self ! (i + 1)" "other ! j"] True "1.prems"
    obtain i' where
      "collect_self self other (i + 1) j (self_bag @ [self ! (i + 1)]) =
         Some (i', (self_bag @ [self ! (i + 1)]) @ take (i' - (i + 1)) (drop (i + 1 + 1) self))"
      "i + 1 \<le> i'" "i' < length self"
      by (auto simp: getitem_Some)
    moreover have "[self ! (i + 1)] @ take (i' - (i + 1)) (drop (i + 1 + 1) self)
                     = take (i' - i) (drop (i + 1) self)"
      if "i + 1 \<le> i'" "i' < length self" for i'
    proof -
      from that have "drop (i + 1) self = self ! (i + 1) # drop (i + 1 + 1) self"
        by (simp add: Cons_nth_drop_Suc)
      moreover from that have "i' - i = Suc (i' - (i + 1))" by simp
      ultimately show ?thesis by simp
    qed
    ultimately show ?thesis by force
  next
    case False
    then have "collect_self self other i j self_bag = Some (i, self_bag)"
      using "1.prems" by (subst collect_self.simps) (auto simp: getitem_Some)
    then show ?thesis using "1.prems" by simp
  qed
qed

lemma merge_dict_Some: "\<exists>ret. merge_dict d1 d2 = Some ret"
proof -
  have "set (remdups (keys d1 @ keys d2)) \<subseteq> set (keys d1) \<union> set (keys d2)"
    by simp
  from merge_fold [OF this, of "[]"] show ?thesis
    unfolding merge_dict_def by blast
qed

lemma reduce_fold_Some:
  "\<exists>r. fold (\<lambda>element value. do { v \<leftarrow> value; merge_dict v element }) ds (Some d) = Some r"
proof (induction ds arbitrary: d)
  case Nil
  show ?case by simp
next
  case (Cons a ds)
  obtain r where "merge_dict d a = Some r" using merge_dict_Some by blast
  with Cons [of r] show ?case by simp
qed

lemma reduce_merge_dict_Some: "ds \<noteq> [] \<Longrightarrow> \<exists>r. reduce merge_dict ds = Some r"
  using reduce_fold_Some by (cases ds) auto

lemma emit_Some:
  "maps \<noteq> [] \<Longrightarrow>
     \<exists>l_map. reduce merge_dict maps = Some l_map
        \<and> emit ret item maps = Some (ret @ [new_SubRipItem (start item) (end' item) l_map])"
  using reduce_merge_dict_Some [of maps] by (auto simp: emit_def)

lemma bag_take_drop:
  "j < length xs \<Longrightarrow> [xs ! j] @ take n (drop (j + 1) xs) = take (n + 1) (drop j xs)"
  by (simp add: Cons_nth_drop_Suc [symmetric])

lemma match_other_group_skip:
  assumes "i < length self" "j < length other"
    and "j + 1 < length other"
    and "ordinal (end' (other ! (j + 1))) - ordinal (end' (self ! i)) > 1000"
  shows "match_other_group self other i j ret = Some (i + 1, j + 1, ret)"
  using assms by (simp add: match_other_group_def getitem_Some)

lemma match_other_group_gather:
  assumes "i < length self" "j < length other"
    and "\<not> (j + 1 < length other
            \<and> ordinal (end' (other ! (j + 1))) - ordinal (end' (self ! i)) > 1000)"
  shows "\<exists>j' ret'.
           collect_other self other i j [other ! j] = Some (j', take (j' - j + 1) (drop j other))
         \<and> j \<le> j' \<and> j' < length other
         \<and> match_other_group self other i j ret = Some (i + 1, j' + 1, ret')
         \<and> (if \<bar>ordinal (end' (other ! j')) - ordinal (end' (self ! i))\<bar> < 1000
            then emit ret (self ! i) (map lang_map (take (j' - j + 1) (drop j other))) = Some ret'
            else ret' = ret)"
proof -
  from collect_other_Some [OF assms(1,2), of "[other ! j]"] obtain j' where
    c: "collect_other self other i j [other ! j] =
          Some (j', [other ! j] @ take (j' - j) (drop (j + 1) other))"
    and le: "j \<le> j'" "j' < length other"
    by blast
  let ?bag = "take (j' - j + 1) (drop j other)"
  from c have c': "collect_other self other i j [other ! j] = Some (j', ?bag)"
    using bag_take_drop [OF assms(2), of "j' - j"] by simp
  have ne: "map lang_map ?bag \<noteq> []"
    using assms(2) by simp
  have g: "getitem self i = Some (self ! i)" "getitem other j = Some (other ! j)"
    "getitem other j' = Some (other ! j')"
    using assms(1,2) le by (simp_all add: getitem_Some)
  have skip: "(if j + 1 < length other
               then do { nxt \<leftarrow> getitem other (j + 1);
                         Some (ordinal (end' nxt) - ordinal (end' (self ! i)) > 1000) }
               else Some False) = Some False"
    using assms(3) by (auto simp: getitem_Some)
  show ?thesis
  proof (cases "\<bar>ordinal (end' (other ! j')) - ordinal (end' (self ! i))\<bar> < 1000")
    case True
    from emit_Some [OF ne, of ret "self ! i"] obtain ret' where
      e: "emit ret (self ! i) (map lang_map ?bag) = Some ret'" by blast
    have "match_other_group self other i j ret = Some (i + 1, j' + 1, ret')"
      by (simp only: match_other_group_def g skip c' e True
            Option.bind.bind_lunit if_False if_True prod.case)
    with c' le e True show ?thesis by auto
  next
    case False
    have "match_other_group self other i j ret = Some (i + 1, j' + 1, ret)"
      by (simp only: match_other_group_def g skip c' False
            Option.bind.bind_lunit if_False prod.case)
    with c' le False show ?thesis by auto
  qed
qed

lemma match_self_group_skip:
  assumes "i < length self" "j < length other"
    and "i + 1 < length self"
    and "ordinal (end' (self ! (i + 1))) - ordinal (end' (other ! j)) > 1000"
  shows "match_self_group self other i j ret = Some (i + 1, j + 1, ret)"
  using assms by (simp add: match_self_group_def getitem_Some)

lemma match_self_group_gather:
  assumes "i < length self" "j < length other"
    and "\<not> (i + 1 < length self
            \<and> ordinal (end' (self ! (i + 1))) - ordinal (end' (other ! j)) > 1000)"
  shows "\<exists>i' ret'.
           collect_self self other i j [self ! i] = Some (i', take (i' - i + 1) (drop i self))
         \<and> i \<le> i' \<and> i' < length self
         \<and> match_self_group self other i j ret = Some (i' + 1, j + 1, ret')
         \<and> (if \<bar>ordinal (end' (self ! i')) - ordinal (end' (other ! j))\<bar> < 1000
            then emit ret (self ! i') (map lang_map (take (i' - i + 1) (drop i self))) = Some ret'
            else ret' = ret)"
proof -
  from collect_self_Some [OF assms(1,2), of "[self ! i]"] obtain i' where
    c: "collect_self self other i j [self ! i] =
          Some (i', [self ! i] @ take (i' - i) (drop (i + 1) self))"
    and le: "i \<le> i'" "i' < length self"
    by blast
  let ?bag = "take (i' - i + 1) (drop i self)"
  from c have c': "collect_self self other i j [self ! i] = Some (i', ?bag)"
    using bag_take_drop [OF assms(1), of "i' - i"] by simp
  have ne: "map lang_map ?bag \<noteq> []"
    using assms(1) by simp
  have g: "getitem self i = Some (self ! i)" "getitem other j = Some (other ! j)"
    "getitem self i' = Some (self ! i')"
    using assms(1,2) le by (simp_all add: getitem_Some)
  have skip: "(if i + 1 < length self
               then do { nxt \<leftarrow> getitem self (i + 1);
                         Some (ordinal (end' nxt) - ordinal (end' (other ! j)) > 1000) }
               else Some False) = Some False"
    using assms(3) by (auto simp: getitem_Some)
  show ?thesis
  proof (cases "\<bar>ordinal (end' (self ! i')) - ordinal (end' (other ! j))\<bar> < 1000")
    case True
    from emit_Some [OF ne, of ret "self ! i'"] obtain ret' where
      e: "emit ret (self ! i') (map lang_map ?bag) = Some ret'" by blast
    have "match_self_group self other i j ret = Some (i' + 1, j + 1, ret')"
      by (simp only: match_self_group_def g skip c' e True
            Option.bind.bind_lunit if_False if_True prod.case)
    with c' le e True show ?thesis by auto
  next
    case False
    have "match_self_group self other i j ret = Some (i' + 1, j + 1, ret)"
      by (simp only: match_self_group_def g skip c' False
            Option.bind.bind_lunit if_False prod.case)
    with c' le False show ?thesis by auto
  qed
qed

lemma match_other_group_progress:
  assumes "i < length self" "j < length other"
  shows "\<exists>j' ret'. match_other_group self other i j ret = Some (i + 1, j' + 1, ret')
           \<and> j \<le> j' \<and> j' < length other"
proof (cases "j + 1 < length other
                \<and> ordinal (end' (other ! (j + 1))) - ordinal (end' (self ! i)) > 1000")
  case True
  with match_other_group_skip [OF assms, of ret] assms show ?thesis by auto
next
  case False
  from match_other_group_gather [OF assms False, of ret] show ?thesis by blast
qed

lemma match_self_group_progress:
  assumes "i < length self" "j < length other"
  shows "\<exists>i' ret'. match_self_group self other i j ret = Some (i' + 1, j + 1, ret')
           \<and> i \<le> i' \<and> i' < length self"
proof (cases "i + 1 < length self
                \<and> ordinal (end' (self ! (i + 1))) - ordinal (end' (other ! j)) > 1000")
  case True
  with match_self_group_skip [OF assms, of ret] assms show ?thesis by auto
next
  case False
  from match_self_group_gather [OF assms False, of ret] show ?thesis by blast
qed

lemma match_step_progress:
  assumes "i < length self" "j < length other"
  shows "\<exists>i' j' ret'. match_step self other i j ret = Some (i', j', ret')
           \<and> i \<le> i' \<and> j \<le> j' \<and> i + j < i' + j'
           \<and> i' \<le> length self \<and> j' \<le> length other"
proof -
  let ?sd = "ordinal (start (self ! i)) - ordinal (start (other ! j))"
  let ?ed = "ordinal (end' (self ! i)) - ordinal (end' (other ! j))"
  have g: "getitem self i = Some (self ! i)" "getitem other j = Some (other ! j)"
    using assms by (simp_all add: getitem_Some)
  consider (one) "\<bar>?sd\<bar> \<le> 1000" "\<bar>?ed\<bar> \<le> 1000"
    | (og) "\<bar>?sd\<bar> \<le> 1000" "\<not> \<bar>?ed\<bar> \<le> 1000" "?ed > 1000"
    | (sg) "\<bar>?sd\<bar> \<le> 1000" "\<not> \<bar>?ed\<bar> \<le> 1000" "\<not> ?ed > 1000" "?ed < - 1000"
    | (si) "\<not> \<bar>?sd\<bar> \<le> 1000" "?sd < - 1000"
    | (sj) "\<not> \<bar>?sd\<bar> \<le> 1000" "\<not> ?sd < - 1000"
    by linarith
  then show ?thesis
  proof cases
    case one
    from emit_Some [of "[lang_map (self ! i), lang_map (other ! j)]" ret "self ! i"]
    obtain ret' where e: "emit ret (self ! i) [lang_map (self ! i), lang_map (other ! j)] = Some ret'"
      by blast
    have "match_step self other i j ret = Some (i + 1, j + 1, ret')"
      by (simp only: match_step_def g Let_def Option.bind.bind_lunit one if_True e)
    with assms show ?thesis by simp
  next
    case og
    have "match_step self other i j ret = match_other_group self other i j ret"
      by (simp only: match_step_def g Let_def Option.bind.bind_lunit og if_True if_False)
    with match_other_group_progress [OF assms, of ret] assms show ?thesis by auto
  next
    case sg
    have "match_step self other i j ret = match_self_group self other i j ret"
      by (simp only: match_step_def g Let_def Option.bind.bind_lunit sg if_True if_False)
    with match_self_group_progress [OF assms, of ret] assms show ?thesis by auto
  next
    case si
    have "match_step self other i j ret = Some (i + 1, j, ret)"
      by (simp only: match_step_def g Let_def Option.bind.bind_lunit si if_True if_False)
    with assms show ?thesis by simp
  next
    case sj
    have "match_step self other i j ret = Some (i, j + 1, ret)"
      by (simp only: match_step_def g Let_def Option.bind.bind_lunit sj if_True if_False)
    with assms show ?thesis by simp
  qed
qed

lemma match_step_decreases:
  assumes "i < length self" "j < length other"
    and "match_step self other i j ret = Some (i', j', ret')"
  shows "(length self - i') + (length other - j') < length self + length other - (j + i)"
proof -
  from match_step_progress [OF assms(1,2), of ret] assms(3)
  have "i \<le> i'" "j \<le> j'" "i + j < i' + j'" "i' \<le> length self" "j' \<le> length other"
    by auto
  with assms(1,2) show ?thesis by linarith
qed

subsection \<open>Termination of the outer loop\<close>

text \<open>
  The distance of the two pointers from the ends of their collections decreases with every
  pass, so the loop and the count of its passes are total functions.
\<close>

termination match_loop
  by (relation "measure (\<lambda>(self, other, i, j, ret). (length self - i) + (length other - j))")
     (auto intro: match_step_decreases)

termination match_iterations
  by (relation "measure (\<lambda>(self, other, i, j, ret). (length self - i) + (length other - j))")
     (auto intro: match_step_decreases)

declare match_loop.simps [simp del] match_iterations.simps [simp del]

subsection \<open>Facts about the loop\<close>

lemma match_loop_Some: "\<exists>r. match_loop self other i j ret = Some r"
proof (induction self other i j ret rule: match_loop.induct)
  case (1 self other i j ret)
  show ?case
  proof (cases "i < length self \<and> j < length other")
    case True
    with match_step_progress [of i self j other ret] obtain i' j' ret' where
      s: "match_step self other i j ret = Some (i', j', ret')" by blast
    from "1.IH" [OF True s refl refl] obtain r where
      "match_loop self other i' j' ret' = Some r" by blast
    moreover have "match_loop self other i j ret = match_loop self other i' j' ret'"
      by (subst match_loop.simps) (simp only: True simp_thms if_True s option.case prod.case)
    ultimately show ?thesis by simp
  next
    case False
    have "match_loop self other i j ret = Some ret"
      by (subst match_loop.simps) (simp only: False if_False)
    then show ?thesis by simp
  qed
qed

lemma match_iterations_bound:
  "match_iterations self other i j ret \<le> (length self - i) + (length other - j)"
proof (induction self other i j ret rule: match_iterations.induct)
  case (1 self other i j ret)
  show ?case
  proof (cases "i < length self \<and> j < length other")
    case True
    with match_step_progress [of i self j other ret] obtain i' j' ret' where
      s: "match_step self other i j ret = Some (i', j', ret')"
      and p: "i \<le> i'" "j \<le> j'" "i + j < i' + j'" "i' \<le> length self" "j' \<le> length other"
      by blast
    from "1.IH" [OF True s refl refl]
    have "match_iterations self other i' j' ret' \<le> (length self - i') + (length other - j')" .
    moreover have "match_iterations self other i j ret = 1 + match_iterations self other i' j' ret'"
      by (subst match_iterations.simps) (simp only: True simp_thms if_True s option.case prod.case)
    ultimately show ?thesis using p True by linarith
  next
    case False
    have "match_iterations self other i j ret = 0"
      by (subst match_iterations.simps) (simp only: False if_False)
    then show ?thesis by simp
  qed
qed

lemma match_Some:
  "\<exists>ret. match_loop (data self) (data other) 0 0 [] = Some ret
      \<and> match self other =
          Some (new_SubRipFile \<lparr>data := ret, lang_stat := lang_statistics ret,
                  langs := dominant_langs ret (lang_statistics ret)\<rparr>)"
  using match_loop_Some [of "data self" "data other" 0 0 "[]"]
  by (auto simp: match_def Let_def)

subsection \<open>The scenario, evaluated\<close>

lemmas scenario_defs =
  scenario_self_def scenario_other_def new_SubRipFile_def new_SubRipItem_def

lemma scenario_collect:
  "collect_other (data scenario_self) (data scenario_other) 0 0 [data scenario_other ! 0]
     = Some (1, data scenario_other)"
  by (simp add: collect_other.simps scenario_defs getitem_def)

lemma scenario_merge:
  "merge_dict [(''fr'', ''bonjour'')] [(''fr'', ''monde'')] = Some [(''fr'', ''bonjourmonde'')]"
  by (simp add: merge_dict_def merge_value_def keys_def contains_def dict_getitem_def
        dict_setitem_def)

lemma scenario_step:
  "match_step (data scenario_self) (data scenario_other) 0 0 []
     = Some (1, 2, [new_SubRipItem \<lparr>ordinal = 1000\<rparr> \<lparr>ordinal = 3000\<rparr>
                      [(''fr'', ''bonjourmonde'')]])"
  using scenario_collect
  by (simp add: match_step_def match_other_group_def emit_def scenario_merge scenario_defs
        getitem_def)

lemma scenario_loop:
  "match_loop (data scenario_self) (data scenario_other) 0 0 []
     = Some [new_SubRipItem \<lparr>ordinal = 1000\<rparr> \<lparr>ordinal = 3000\<rparr> [(''fr'', ''bonjourmonde'')]]"
proof -
  have "match_loop (data scenario_self) (data scenario_other) 0 0 []
          = match_loop (data scenario_self) (data scenario_other) 1 2
              [new_SubRipItem \<lparr>ordinal = 1000\<rparr> \<lparr>ordinal = 3000\<rparr> [(''fr'', ''bonjourmonde'')]]"
    by (subst match_loop.simps) (simp add: scenario_step, simp add: scenario_defs)
  also have "\<dots> = Some [new_SubRipItem \<lparr>ordinal = 1000\<rparr> \<lparr>ordinal = 3000\<rparr>
                         [(''fr'', ''bonjourmonde'')]]"
    by (subst match_loop.simps) (simp add: scenario_defs)
  finally show ?thesis .
qed

lemma scenario_iterations:
  "match_iterations (data scenario_self) (data scenario_other) 0 0 [] = 1"
proof -
  have "match_iterations (data scenario_self) (data scenario_other) 0 0 []
          = 1 + match_iterations (data scenario_self) (data scenario_other) 1 2
              [new_SubRipItem \<lparr>ordinal = 1000\<rparr> \<lparr>ordinal = 3000\<rparr> [(''fr'', ''bonjourmonde'')]]"
    by (subst match_iterations.simps) (simp add: scenario_step, simp add: scenario_defs)
  also have "\<dots> = 1"
    by (subst match_iterations.simps) (simp add: scenario_defs)
  finally show ?thesis .
qed

subsection \<open>Claims about the loop of \<^verbatim>\<open>match\<close>\<close>

text \<open>
  C5. For every pair of collections \<^verbatim>\<open>match\<close> terminates and returns. Every pass through
  the body of the outer loop, entered with \<open>i < self_num\<close> and \<open>j < other_num\<close>, leaves
  pointers that have not decreased, of which at least one has strictly increased, and that do
  not exceed the sizes. The loop exits at once, without a pass, as soon as either pointer has
  reached the end of its collection. Hence the number of passes is at most the sum of the two
  sizes.
\<close>

theorem match_terminates_with_progress:
  "(\<exists>r. match self other = Some r)
   \<and> match_iterations (data self) (data other) 0 0 [] \<le> length (data self) + length (data other)
   \<and> (\<forall>i j ret. i < length (data self) \<and> j < length (data other) \<longrightarrow>
         (\<exists>i' j' ret'. match_step (data self) (data other) i j ret = Some (i', j', ret')
             \<and> i \<le> i' \<and> j \<le> j' \<and> i + j < i' + j'
             \<and> i' \<le> length (data self) \<and> j' \<le> length (data other)))
   \<and> (\<forall>i j ret. \<not> (i < length (data self) \<and> j < length (data other)) \<longrightarrow>
         match_loop (data self) (data other) i j ret = Some ret
         \<and> match_iterations (data self) (data other) i j ret = 0)"
proof -
  have "\<exists>r. match self other = Some r"
    using match_Some [of self other] by blast
  moreover have "match_iterations (data self) (data other) 0 0 []
                   \<le> length (data self) + length (data other)"
    using match_iterations_bound [of "data self" "data other" 0 0 "[]"] by simp
  moreover have "\<exists>i' j' ret'. match_step (data self) (data other) i j ret = Some (i', j', ret')
             \<and> i \<le> i' \<and> j \<le> j' \<and> i + j < i' + j'
             \<and> i' \<le> length (data self) \<and> j' \<le> length (data other)"
    if "i < length (data self) \<and> j < length (data other)" for i j ret
    using that match_step_progress [of i "data self" j "data other" ret] by blast
  moreover have "match_loop (data self) (data other) i j ret = Some ret
         \<and> match_iterations (data self) (data other) i j ret = 0"
    if "\<not> (i < length (data self) \<and> j < length (data other))" for i j ret
    by (subst match_loop.simps, subst match_iterations.simps) (simp only: that if_False simp_thms)
  ultimately show ?thesis by blast
qed

text \<open>The statement of C5 on the scenario.\<close>

theorem match_terminates_with_progress_witness:
  "(\<exists>r. match scenario_self scenario_other = Some r)
   \<and> match_iterations (data scenario_self) (data scenario_other) 0 0 [] \<le> 1 + 2
   \<and> 0 < length (data scenario_self) \<and> 0 < length (data scenario_other)
   \<and> (\<exists>i' j' ret'. match_step (data scenario_self) (data scenario_other) 0 0 []
                        = Some (i', j', ret')
         \<and> 0 < i' + j' \<and> i' \<le> 1 \<and> j' \<le> 2)
   \<and> \<not> (1 < length (data scenario_self) \<and> 2 < length (data scenario_other))
   \<and> match_loop (data scenario_self) (data scenario_other) 1 2 [] = Some []"
proof -
  note t = match_terminates_with_progress [of scenario_self scenario_other]
  have len: "length (data scenario_self) = 1" "length (data scenario_other) = 2"
    by (simp_all add: scenario_defs)
  from t have a: "\<exists>r. match scenario_self scenario_other = Some r"
    and b: "match_iterations (data scenario_self) (data scenario_other) 0 0 [] \<le> 1 + 2"
    by (simp_all add: len)
  from t have "0 < length (data scenario_self) \<and> 0 < length (data scenario_other) \<longrightarrow>
      (\<exists>i' j' ret'. match_step (data scenario_self) (data scenario_other) 0 0 []
                        = Some (i', j', ret')
         \<and> 0 \<le> i' \<and> 0 \<le> j' \<and> 0 + 0 < i' + j'
         \<and> i' \<le> length (data scenario_self) \<and> j' \<le> length (data scenario_other))"
    by blast
  then have c: "\<exists>i' j' ret'. match_step (data scenario_self) (data scenario_other) 0 0 []
                        = Some (i', j', ret') \<and> 0 < i' + j' \<and> i' \<le> 1 \<and> j' \<le> 2"
    by (simp add: len)
  from t have "\<not> (1 < length (data scenario_self) \<and> 2 < length (data scenario_other)) \<longrightarrow>
      match_loop (data scenario_self) (data scenario_other) 1 2 [] = Some []
      \<and> match_iterations (data scenario_self) (data scenario_other) 1 2 [] = 0"
    by blast
  then have d: "match_loop (data scenario_self) (data scenario_other) 1 2 [] = Some []"
    by (simp add: len)
  from a b c d show ?thesis by (simp add: len)
qed

text \<open>
  C1. On the scenario \<^verbatim>\<open>match\<close> emits exactly one merged record, with start 1000 and end
  3000. Its \<^verbatim>\<open>lang_map\<close> is \<^verbatim>\<open>{"fr": "bonjourmonde"}\<close>: the two records of \<^verbatim>\<open>other\<close>
  are gathered and their texts concatenated, but the entry \<^verbatim>\<open>"en": "hi"\<close> of the
  \<^verbatim>\<open>self\<close> record is absent, since branch 1.2 reduces the maps of \<^verbatim>\<open>other_bag\<close> alone
  (line 387) where the one-to-one branch merges the map of \<^verbatim>\<open>self[i]\<close> too (line 362).
\<close>

theorem match_scenario_result:
  "match scenario_self scenario_other =
     Some (new_SubRipFile
       \<lparr>data := [new_SubRipItem \<lparr>ordinal = 1000\<rparr> \<lparr>ordinal = 3000\<rparr>
                   [(''fr'', ''bonjourmonde'')]],
        lang_stat := [(''fr'', 1)], langs := [''fr'']\<rparr>)"
  using scenario_loop
  by (simp add: match_def new_SubRipFile_def lang_statistics_def dominant_langs_def Counter_def
       counter_getitem_def dict_getitem_def dict_setitem_def keys_def new_SubRipItem_def Let_def)

text \<open>
  C2, as the code has it. In the grouping branch (\<open>\<bar>start_delta\<bar> \<le> 1000\<close> and
  \<open>end_delta > 1000\<close>) one pass through the body advances \<open>i\<close> by one. When the guard of
  line 372 holds, \<open>j\<close> advances by one and nothing is emitted. Otherwise the inner loop gathers
  the records \<^verbatim>\<open>other[j]\<close>, ..., \<^verbatim>\<open>other[j']\<close> into \<^verbatim>\<open>other_bag\<close>, and the pass leaves
  \<open>j\<close> at \<open>j' + 1\<close>, that is \<open>j\<close> plus the size of the bag: past the whole group, none
  of whose records is visited again.
\<close>

theorem match_step_group_advance:
  assumes "i < length self" and "j < length other"
    and "\<bar>ordinal (start (self ! i)) - ordinal (start (other ! j))\<bar> \<le> 1000"
    and "ordinal (end' (self ! i)) - ordinal (end' (other ! j)) > 1000"
  shows "if j + 1 < length other
            \<and> ordinal (end' (other ! (j + 1))) - ordinal (end' (self ! i)) > 1000
         then match_step self other i j ret = Some (i + 1, j + 1, ret)
         else (\<exists>j' other_bag ret'.
                 collect_other self other i j [other ! j] = Some (j', other_bag)
               \<and> other_bag = take (length other_bag) (drop j other)
               \<and> 1 \<le> length other_bag
               \<and> j' + 1 = j + length other_bag
               \<and> match_step self other i j ret = Some (i + 1, j + length other_bag, ret')
               \<and> (if \<bar>ordinal (end' (other ! j')) - ordinal (end' (self ! i))\<bar> < 1000
                  then emit ret (self ! i) (map lang_map other_bag) = Some ret'
                  else ret' = ret))"
proof -
  have g: "getitem self i = Some (self ! i)" "getitem other j = Some (other ! j)"
    using assms(1,2) by (simp_all add: getitem_Some)
  have n: "\<not> \<bar>ordinal (end' (self ! i)) - ordinal (end' (other ! j))\<bar> \<le> 1000"
    using assms(4) by linarith
  have step: "match_step self other i j ret = match_other_group self other i j ret"
    by (simp only: match_step_def g Let_def Option.bind.bind_lunit assms(3,4) n if_True if_False)
  show ?thesis
  proof (cases "j + 1 < length other
                  \<and> ordinal (end' (other ! (j + 1))) - ordinal (end' (self ! i)) > 1000")
    case True
    with match_other_group_skip [OF assms(1,2), of ret] step show ?thesis by simp
  next
    case False
    from match_other_group_gather [OF assms(1,2) False, of ret] obtain j' ret' where
      c: "collect_other self other i j [other ! j] = Some (j', take (j' - j + 1) (drop j other))"
      and le: "j \<le> j'" "j' < length other"
      and m: "match_other_group self other i j ret = Some (i + 1, j' + 1, ret')"
      and e: "if \<bar>ordinal (end' (other ! j')) - ordinal (end' (self ! i))\<bar> < 1000
              then emit ret (self ! i) (map lang_map (take (j' - j + 1) (drop j other))) = Some ret'
              else ret' = ret"
      by blast
    let ?bag = "take (j' - j + 1) (drop j other)"
    have l: "length ?bag = j' - j + 1" using le by simp
    have "?bag = take (length ?bag) (drop j other)" by (simp only: l)
    moreover have "1 \<le> length ?bag" "j' + 1 = j + length ?bag"
      using le unfolding l by simp_all
    moreover have "match_step self other i j ret = Some (i + 1, j + length ?bag, ret')"
      using step m le unfolding l by simp
    ultimately have "\<exists>j' other_bag ret'.
                 collect_other self other i j [other ! j] = Some (j', other_bag)
               \<and> other_bag = take (length other_bag) (drop j other)
               \<and> 1 \<le> length other_bag
               \<and> j' + 1 = j + length other_bag
               \<and> match_step self other i j ret = Some (i + 1, j + length other_bag, ret')
               \<and> (if \<bar>ordinal (end' (other ! j')) - ordinal (end' (self ! i))\<bar> < 1000
                  then emit ret (self ! i) (map lang_map other_bag) = Some ret'
                  else ret' = ret)"
      using c e by blast
    with False show ?thesis by (simp only: if_False)
  qed
qed

text \<open>The statement on the scenario, whose first pass is in the grouping branch.\<close>

theorem match_step_group_advance_witness:
  "0 < length (data scenario_self) \<and> 0 < length (data scenario_other)
   \<and> \<bar>ordinal (start (data scenario_self ! 0)) - ordinal (start (data scenario_other ! 0))\<bar>
        \<le> 1000
   \<and> ordinal (end' (data scenario_self ! 0)) - ordinal (end' (data scenario_other ! 0)) > 1000
   \<and> (\<exists>j' other_bag ret'.
         collect_other (data scenario_self) (data scenario_other) 0 0 [data scenario_other ! 0]
           = Some (j', other_bag)
       \<and> 1 \<le> length other_bag
       \<and> j' + 1 = 0 + length other_bag
       \<and> match_step (data scenario_self) (data scenario_other) 0 0 []
           = Some (0 + 1, 0 + length other_bag, ret'))"
proof -
  have h: "0 < length (data scenario_self)" "0 < length (data scenario_other)"
    "\<bar>ordinal (start (data scenario_self ! 0)) - ordinal (start (data scenario_other ! 0))\<bar>
        \<le> 1000"
    "ordinal (end' (data scenario_self ! 0)) - ordinal (end' (data scenario_other ! 0)) > 1000"
    by (simp_all add: scenario_defs)
  have "\<not> (0 + 1 < length (data scenario_other)
           \<and> ordinal (end' (data scenario_other ! (0 + 1)))
               - ordinal (end' (data scenario_self ! 0)) > 1000)"
    by (simp add: scenario_defs)
  with match_step_group_advance [OF h, of "[]"] h show ?thesis
    by (simp only: if_False) blast
qed

text \<open>
  On the scenario the first pass is in the grouping branch, gathers both records of
  \<^verbatim>\<open>other\<close> and moves \<open>j\<close> from 0 to 2, past the two of them and not past one only; the
  loop then stops, so the branch is entered once and not again.
\<close>

theorem match_step_group_scenario:
  "\<bar>ordinal (start (data scenario_self ! 0)) - ordinal (start (data scenario_other ! 0))\<bar>
        \<le> 1000
   \<and> ordinal (end' (data scenario_self ! 0)) - ordinal (end' (data scenario_other ! 0)) > 1000
   \<and> collect_other (data scenario_self) (data scenario_other) 0 0 [data scenario_other ! 0]
        = Some (1, data scenario_other)
   \<and> length (data scenario_other) = 2
   \<and> match_step (data scenario_self) (data scenario_other) 0 0 []
        = Some (1, 2, [new_SubRipItem \<lparr>ordinal = 1000\<rparr> \<lparr>ordinal = 3000\<rparr>
                         [(''fr'', ''bonjourmonde'')]])
   \<and> match_iterations (data scenario_self) (data scenario_other) 0 0 [] = 1"
proof -
  have "\<bar>ordinal (start (data scenario_self ! 0)) - ordinal (start (data scenario_other ! 0))\<bar>
        \<le> 1000"
    "ordinal (end' (data scenario_self ! 0)) - ordinal (end' (data scenario_other ! 0)) > 1000"
    "length (data scenario_other) = 2"
    by (simp_all add: scenario_defs)
  with scenario_collect scenario_step scenario_iterations show ?thesis by simp
qed

subsection \<open>Facts about \<^verbatim>\<open>Counter\<close> and the language statistics\<close>

lemma counter_getitem_setitem:
  "counter_getitem (dict_setitem c e v) k = (if k = e then v else counter_getitem c k)"
  by (simp add: counter_getitem_def getitem_setitem)

lemma counter_fold:
  "counter_getitem (fold (\<lambda>elem c. dict_setitem c elem (counter_getitem c elem + 1)) xs c) k
     = counter_getitem c k + count_list xs k
   \<and> set (keys (fold (\<lambda>elem c. dict_setitem c elem (counter_getitem c elem + 1)) xs c))
     = set (keys c) \<union> set xs
   \<and> (distinct (keys c) \<longrightarrow>
        distinct (keys (fold (\<lambda>elem c. dict_setitem c elem (counter_getitem c elem + 1)) xs c)))"
proof (induction xs arbitrary: c)
  case Nil
  show ?case by simp
next
  case (Cons x xs)
  from Cons [of "dict_setitem c x (counter_getitem c x + 1)"]
  show ?case
    by (auto simp: counter_getitem_setitem keys_setitem distinct_setitem)
qed

lemma Counter_count: "counter_getitem (Counter xs) k = count_list xs k"
  using counter_fold [of xs "[]" k] by (simp add: Counter_def counter_getitem_def dict_getitem_def)

lemma Counter_keys: "set (keys (Counter xs)) = set xs" "distinct (keys (Counter xs))"
  using counter_fold [of xs "[]"] by (simp_all add: Counter_def keys_def)

lemma count_list_distinct:
  "distinct xs \<Longrightarrow> count_list xs k = (if k \<in> set xs then 1 else 0)"
  by (induction xs) auto

lemma count_list_concat_distinct:
  "\<forall>r \<in> set rs. distinct (f r) \<Longrightarrow>
     count_list (concat (map f rs)) k = length (filter (\<lambda>r. k \<in> set (f r)) rs)"
proof (induction rs)
  case Nil
  show ?case by simp
next
  case (Cons r rs)
  then have "count_list (f r) k = (if k \<in> set (f r) then 1 else 0)"
    by (simp add: count_list_distinct)
  with Cons show ?case by simp
qed

lemma dominant_langs_set:
  assumes "\<forall>r \<in> set ret. distinct (keys (lang_map r))"
  shows "set (dominant_langs ret (lang_statistics ret))
           = {key. length (filter (\<lambda>r. contains (lang_map r) key) ret) > length ret div 10}"
    and "distinct (dominant_langs ret (lang_statistics ret))"
proof -
  let ?all = "concat (map (\<lambda>i. keys (lang_map i)) ret)"
  have c: "counter_getitem (lang_statistics ret) key
             = length (filter (\<lambda>r. contains (lang_map r) key) ret)" for key
    using count_list_concat_distinct [of ret "\<lambda>i. keys (lang_map i)" key] assms
    by (simp add: lang_statistics_def Counter_count contains_def)
  have k: "set (keys (lang_statistics ret)) = set ?all"
    by (simp add: lang_statistics_def Counter_keys)
  have "key \<in> set ?all" if "length (filter (\<lambda>r. contains (lang_map r) key) ret) > length ret div 10"
    for key
  proof -
    from that have "filter (\<lambda>r. contains (lang_map r) key) ret \<noteq> []" by auto
    then obtain r where "r \<in> set ret" "contains (lang_map r) key"
      by (metis (mono_tags, lifting) filter_False)
    then show ?thesis by (auto simp: contains_def)
  qed
  then show "set (dominant_langs ret (lang_statistics ret))
           = {key. length (filter (\<lambda>r. contains (lang_map r) key) ret) > length ret div 10}"
    unfolding dominant_langs_def using c k by auto
  show "distinct (dominant_langs ret (lang_statistics ret))"
    unfolding dominant_langs_def lang_statistics_def using Counter_keys(2) by simp
qed

subsection \<open>What a pass appends to the output\<close>

lemma match_step_output:
  assumes "i < length self" "j < length other"
    and "match_step self other i j ret = Some (i', j', ret')"
  shows "ret' = ret
       \<or> (\<exists>item maps. maps \<noteq> [] \<and> set maps \<subseteq> lang_map ` (set self \<union> set other)
            \<and> emit ret item maps = Some ret')"
proof -
  let ?sd = "ordinal (start (self ! i)) - ordinal (start (other ! j))"
  let ?ed = "ordinal (end' (self ! i)) - ordinal (end' (other ! j))"
  have g: "getitem self i = Some (self ! i)" "getitem other j = Some (other ! j)"
    using assms by (simp_all add: getitem_Some)
  have mem: "self ! i \<in> set self" "other ! j \<in> set other"
    using assms by simp_all
  consider (one) "\<bar>?sd\<bar> \<le> 1000" "\<bar>?ed\<bar> \<le> 1000"
    | (og) "\<bar>?sd\<bar> \<le> 1000" "\<not> \<bar>?ed\<bar> \<le> 1000" "?ed > 1000"
    | (sg) "\<bar>?sd\<bar> \<le> 1000" "\<not> \<bar>?ed\<bar> \<le> 1000" "\<not> ?ed > 1000" "?ed < - 1000"
    | (si) "\<not> \<bar>?sd\<bar> \<le> 1000" "?sd < - 1000"
    | (sj) "\<not> \<bar>?sd\<bar> \<le> 1000" "\<not> ?sd < - 1000"
    by linarith
  then show ?thesis
  proof cases
    case one
    from emit_Some [of "[lang_map (self ! i), lang_map (other ! j)]" ret "self ! i"]
    obtain r where e: "emit ret (self ! i) [lang_map (self ! i), lang_map (other ! j)] = Some r"
      by blast
    have "match_step self other i j ret = Some (i + 1, j + 1, r)"
      by (simp only: match_step_def g Let_def Option.bind.bind_lunit one if_True e)
    with assms(3) have "r = ret'" by simp
    with e mem have "[lang_map (self ! i), lang_map (other ! j)] \<noteq> []
        \<and> set [lang_map (self ! i), lang_map (other ! j)] \<subseteq> lang_map ` (set self \<union> set other)
        \<and> emit ret (self ! i) [lang_map (self ! i), lang_map (other ! j)] = Some ret'"
      by simp
    then show ?thesis by blast
  next
    case og
    have step: "match_step self other i j ret = match_other_group self other i j ret"
      by (simp only: match_step_def g Let_def Option.bind.bind_lunit og if_True if_False)
    show ?thesis
    proof (cases "j + 1 < length other
                    \<and> ordinal (end' (other ! (j + 1))) - ordinal (end' (self ! i)) > 1000")
      case True
      with match_other_group_skip [OF assms(1,2), of ret] step assms(3) show ?thesis by simp
    next
      case False
      from match_other_group_gather [OF assms(1,2) False, of ret] step assms(3)
      obtain k where
        e: "if \<bar>ordinal (end' (other ! k)) - ordinal (end' (self ! i))\<bar> < 1000
            then emit ret (self ! i) (map lang_map (take (k - j + 1) (drop j other))) = Some ret'
            else ret' = ret"
        by auto
      have ne: "map lang_map (take (k - j + 1) (drop j other)) \<noteq> []"
        using assms(2) by simp
      have sub: "set (map lang_map (take (k - j + 1) (drop j other)))
                       \<subseteq> lang_map ` (set self \<union> set other)"
        using set_take_subset [of "k - j + 1" "drop j other"] set_drop_subset [of j other]
        by auto
      show ?thesis
      proof (cases "\<bar>ordinal (end' (other ! k)) - ordinal (end' (self ! i))\<bar> < 1000")
        case True
        with e have "emit ret (self ! i) (map lang_map (take (k - j + 1) (drop j other)))
                       = Some ret'"
          by (simp only: if_True)
        with ne sub show ?thesis by blast
      next
        case False
        with e have "ret' = ret" by (simp only: if_False)
        then show ?thesis by blast
      qed
    qed
  next
    case sg
    have step: "match_step self other i j ret = match_self_group self other i j ret"
      by (simp only: match_step_def g Let_def Option.bind.bind_lunit sg if_True if_False)
    show ?thesis
    proof (cases "i + 1 < length self
                    \<and> ordinal (end' (self ! (i + 1))) - ordinal (end' (other ! j)) > 1000")
      case True
      with match_self_group_skip [OF assms(1,2), of ret] step assms(3) show ?thesis by simp
    next
      case False
      from match_self_group_gather [OF assms(1,2) False, of ret] step assms(3)
      obtain k where
        e: "if \<bar>ordinal (end' (self ! k)) - ordinal (end' (other ! j))\<bar> < 1000
            then emit ret (self ! k) (map lang_map (take (k - i + 1) (drop i self))) = Some ret'
            else ret' = ret"
        by auto
      have ne: "map lang_map (take (k - i + 1) (drop i self)) \<noteq> []"
        using assms(1) by simp
      have sub: "set (map lang_map (take (k - i + 1) (drop i self)))
                       \<subseteq> lang_map ` (set self \<union> set other)"
        using set_take_subset [of "k - i + 1" "drop i self"] set_drop_subset [of i self]
        by auto
      show ?thesis
      proof (cases "\<bar>ordinal (end' (self ! k)) - ordinal (end' (other ! j))\<bar> < 1000")
        case True
        with e have "emit ret (self ! k) (map lang_map (take (k - i + 1) (drop i self)))
                       = Some ret'"
          by (simp only: if_True)
        with ne sub show ?thesis by blast
      next
        case False
        with e have "ret' = ret" by (simp only: if_False)
        then show ?thesis by blast
      qed
    qed
  next
    case si
    have "match_step self other i j ret = Some (i + 1, j, ret)"
      by (simp only: match_step_def g Let_def Option.bind.bind_lunit si if_True if_False)
    with assms(3) show ?thesis by simp
  next
    case sj
    have "match_step self other i j ret = Some (i, j + 1, ret)"
      by (simp only: match_step_def g Let_def Option.bind.bind_lunit sj if_True if_False)
    with assms(3) show ?thesis by simp
  qed
qed

lemma merge_dict_distinct: "merge_dict d1 d2 = Some r \<Longrightarrow> distinct (keys r)"
proof -
  assume a: "merge_dict d1 d2 = Some r"
  have "set (remdups (keys d1 @ keys d2)) \<subseteq> set (keys d1) \<union> set (keys d2)"
    by simp
  from merge_fold [OF this, of "[]"] a show ?thesis
    unfolding merge_dict_def by (auto simp: keys_def)
qed

lemma reduce_fold_distinct:
  "fold (\<lambda>element value. do { v \<leftarrow> value; merge_dict v element }) ds (Some d) = Some l
     \<Longrightarrow> distinct (keys d) \<Longrightarrow> distinct (keys l)"
proof (induction ds arbitrary: d)
  case Nil
  then show ?case by simp
next
  case (Cons a ds)
  obtain r where r: "merge_dict d a = Some r" using merge_dict_Some by blast
  with Cons.prems(1) have "fold (\<lambda>element value. do { v \<leftarrow> value; merge_dict v element }) ds
                             (Some r) = Some l"
    by simp
  from Cons.IH [OF this merge_dict_distinct [OF r]] show ?case .
qed

lemma reduce_distinct:
  "reduce merge_dict ds = Some l \<Longrightarrow> \<forall>d \<in> set ds. distinct (keys d) \<Longrightarrow> distinct (keys l)"
  by (cases ds) (auto dest: reduce_fold_distinct)

lemma emit_distinct:
  assumes "emit ret item maps = Some ret'"
    and "\<forall>d \<in> set maps. distinct (keys d)"
    and "\<forall>r \<in> set ret. distinct (keys (lang_map r))"
  shows "\<forall>r \<in> set ret'. distinct (keys (lang_map r))"
  using assms reduce_distinct [of maps]
  by (auto simp: emit_def new_SubRipItem_def split: bind_splits)

lemma match_loop_distinct:
  assumes "\<forall>r \<in> set self \<union> set other. distinct (keys (lang_map r))"
  shows "match_loop self other i j ret = Some out
           \<Longrightarrow> \<forall>r \<in> set ret. distinct (keys (lang_map r))
           \<Longrightarrow> \<forall>r \<in> set out. distinct (keys (lang_map r))"
  using assms
proof (induction self other i j ret rule: match_loop.induct)
  case (1 self other i j ret)
  show ?case
  proof (cases "i < length self \<and> j < length other")
    case True
    with match_step_progress [of i self j other ret] obtain i' j' ret' where
      s: "match_step self other i j ret = Some (i', j', ret')" by blast
    have "match_loop self other i j ret = match_loop self other i' j' ret'"
      by (subst match_loop.simps) (simp only: True simp_thms if_True s option.case prod.case)
    with "1.prems"(1) have l: "match_loop self other i' j' ret' = Some out" by simp
    from match_step_output [OF _ _ s] True
    have "ret' = ret
       \<or> (\<exists>item maps. maps \<noteq> [] \<and> set maps \<subseteq> lang_map ` (set self \<union> set other)
            \<and> emit ret item maps = Some ret')"
      by simp
    then have "\<forall>r \<in> set ret'. distinct (keys (lang_map r))"
    proof
      assume "ret' = ret"
      with "1.prems"(2) show ?thesis by simp
    next
      assume "\<exists>item maps. maps \<noteq> [] \<and> set maps \<subseteq> lang_map ` (set self \<union> set other)
            \<and> emit ret item maps = Some ret'"
      then obtain item maps where
        sub: "set maps \<subseteq> lang_map ` (set self \<union> set other)"
        and e: "emit ret item maps = Some ret'" by blast
      from sub "1.prems"(3) have "\<forall>d \<in> set maps. distinct (keys d)" by auto
      from emit_distinct [OF e this "1.prems"(2)] show ?thesis .
    qed
    from "1.IH" [OF True s refl refl l this "1.prems"(3)] show ?thesis .
  next
    case False
    have "match_loop self other i j ret = Some ret"
      by (subst match_loop.simps) (simp only: False if_False)
    with "1.prems" show ?thesis by simp
  qed
qed

subsection \<open>The dominant languages of a merged collection\<close>

text \<open>
  C9. For inputs whose language maps are dictionaries (no key twice), \<^verbatim>\<open>match\<close> returns a
  collection \<open>m\<close> of \<open>N\<close> records whose list \<^verbatim>\<open>langs\<close> holds, each once, exactly the tags
  whose count, the number of records of \<open>m\<close> whose \<^verbatim>\<open>lang_map\<close> contains the tag, is
  strictly above \<open>N div 10\<close>. The records of \<open>m\<close> are the output of the loop as it stands:
  computing the list removes and alters none of them.
\<close>

theorem match_dominant_langs:
  assumes "\<forall>r \<in> set (data self) \<union> set (data other). distinct (keys (lang_map r))"
  shows "\<exists>m. match self other = Some m
           \<and> match_loop (data self) (data other) 0 0 [] = Some (data m)
           \<and> set (langs m)
               = {key. length (filter (\<lambda>r. contains (lang_map r) key) (data m))
                         > length (data m) div 10}
           \<and> distinct (langs m)"
proof -
  from match_Some [of self other] obtain ret where
    l: "match_loop (data self) (data other) 0 0 [] = Some ret"
    and m: "match self other =
          Some (new_SubRipFile \<lparr>data := ret, lang_stat := lang_statistics ret,
                  langs := dominant_langs ret (lang_statistics ret)\<rparr>)"
    by blast
  from match_loop_distinct [OF assms l] have d: "\<forall>r \<in> set ret. distinct (keys (lang_map r))"
    by simp
  from dominant_langs_set [OF d] l m show ?thesis by simp
qed

text \<open>The statement of C9 on the scenario, whose maps have one key each.\<close>

theorem match_dominant_langs_witness:
  "list_all (\<lambda>r. distinct (keys (lang_map r))) (data scenario_self @ data scenario_other)
   \<and> (\<exists>m. match scenario_self scenario_other = Some m
           \<and> set (langs m)
               = {key. length (filter (\<lambda>r. contains (lang_map r) key) (data m))
                         > length (data m) div 10}
           \<and> distinct (langs m))"
proof -
  have h: "\<forall>r \<in> set (data scenario_self) \<union> set (data scenario_other).
             distinct (keys (lang_map r))"
    by (simp add: scenario_defs keys_def)
  from match_dominant_langs [OF h] h show ?thesis
    unfolding list_all_iff by (simp only: set_append) blast
qed

subsection \<open>Facts about \<^verbatim>\<open>write_into\<close>\<close>







subsection \<open>Facts about \<^verbatim>\<open>clean_indexes\<close>\<close>








subsection \<open>Facts about \<^verbatim>\<open>slice\<close> and \<^verbatim>\<open>shift\<close>\<close>

lemma bound_filter_holds:
  "bound_filter truthy bound cond d = filter (\<lambda>i. bound_holds truthy bound (\<lambda>b. cond b i)) d"
  by (simp add: bound_filter_def bound_holds_def split: option.splits)

lemma slice_data:
  "data (slice truthy coerce h self sb sa eb ea) =
     filter (\<lambda>i. bound_holds truthy sb (\<lambda>b. time_lt (start (h i)) (coerce b))
               \<and> bound_holds truthy sa (\<lambda>b. time_gt (start (h i)) (coerce b))
               \<and> bound_holds truthy eb (\<lambda>b. time_lt (end' (h i)) (coerce b))
               \<and> bound_holds truthy ea (\<lambda>b. time_gt (end' (h i)) (coerce b)))
       (data self)"
  by (simp add: slice_def Let_def bound_filter_holds conj_commute conj_left_commute
        cong: conj_cong)

lemma slice_attributes:
  "slice truthy coerce h self sb sa eb ea
     = self\<lparr>data := data (slice truthy coerce h self sb sa eb ea)\<rparr>"
  by (simp add: slice_def Let_def)

lemma shift_fold:
  "fold (\<lambda>item h. h(item := f (h item))) rs h r = (f ^^ count_list rs r) (h r)"
proof (induction rs arbitrary: h)
  case Nil
  show ?case by simp
next
  case (Cons a rs)
  let ?F = "\<lambda>item h. h(item := f (h item))"
  have "fold ?F (a # rs) h r = fold ?F rs (h(a := f (h a))) r"
    by (simp only: fold_simps)
  also have "\<dots> = (f ^^ count_list rs r) ((h(a := f (h a))) r)"
    by (rule Cons)
  also have "\<dots> = (f ^^ count_list (a # rs) r) (h r)"
    by (cases "a = r") (simp_all add: funpow_swap1)
  finally show ?case .
qed

lemma bound_filter_falsy:
  "\<not> truthy b \<Longrightarrow> bound_filter truthy (Some b) cond d = bound_filter truthy None cond d"
  by (simp add: bound_filter_def)

lemmas demo_defs = demo_store_def demo_file_def new_SubRipFile_def int_truthy_def int_coerce_def
  time_lt_def time_gt_def

subsection \<open>Claims about \<^verbatim>\<open>slice\<close>\<close>

text \<open>
  C7, as the code has it. For every collection and any combination of bounds, \<^verbatim>\<open>slice\<close>
  returns a collection with the attributes of the original whose elements are references to
  (not copies of) exactly those original records, in their order, that satisfy every strict
  comparison whose bound is supplied and truthy; a bound that is left out or falsy constrains
  nothing. Consequently a shift through the sliced collection rewrites the stored record
  itself, once for each time the slice lists it, and reading the store through the original
  collection, which lists the same references, shows the shifted record.
\<close>

theorem slice_shares_records:
  "data (slice truthy coerce h self sb sa eb ea) =
     filter (\<lambda>i. bound_holds truthy sb (\<lambda>b. time_lt (start (h i)) (coerce b))
               \<and> bound_holds truthy sa (\<lambda>b. time_gt (start (h i)) (coerce b))
               \<and> bound_holds truthy eb (\<lambda>b. time_lt (end' (h i)) (coerce b))
               \<and> bound_holds truthy ea (\<lambda>b. time_gt (end' (h i)) (coerce b)))
       (data self)
   \<and> slice truthy coerce h self sb sa eb ea
       = self\<lparr>data := data (slice truthy coerce h self sb sa eb ea)\<rparr>
   \<and> (\<forall>r. shift item_shift h (slice truthy coerce h self sb sa eb ea) r
            = (item_shift ^^ count_list (data (slice truthy coerce h self sb sa eb ea)) r) (h r))"
proof -
  have "shift item_shift h (slice truthy coerce h self sb sa eb ea) r
          = (item_shift ^^ count_list (data (slice truthy coerce h self sb sa eb ea)) r) (h r)"
    for r
    unfolding shift_def by (rule shift_fold)
  with slice_data [of truthy coerce h self sb sa eb ea]
    slice_attributes [of truthy coerce h self sb sa eb ea]
  show ?thesis by blast
qed

text \<open>
  The records of the demonstration store that start after 1000 ms, delayed by 500 ms through
  the slice and then read through the original collection.
\<close>

theorem slice_shares_records_witness:
  "data (slice int_truthy int_coerce demo_store demo_file None (Some 1000) None None) = [1, 2]
   \<and> map (shift (delay 500) demo_store
             (slice int_truthy int_coerce demo_store demo_file None (Some 1000) None None))
        (data demo_file)
       = [demo_store 0, delay 500 (demo_store 1), delay 500 (demo_store 2)]"
  using slice_shares_records [of int_truthy int_coerce demo_store demo_file
           None "Some 1000" None None "delay 500"]
  by (simp add: bound_holds_def demo_defs)

text \<open>
  The bound \<^verbatim>\<open>starts_after=0\<close> is supplied, and the record at reference 0 starts at 0 ms,
  which is not after it; the slice holds that record all the same.
\<close>

theorem slice_zero_bound_keeps_all:
  "data (slice int_truthy int_coerce demo_store demo_file None (Some 0) None None) = [0, 1, 2]
   \<and> \<not> time_gt (start (demo_store 0)) (int_coerce 0)"
  by (simp add: slice_def bound_filter_def Let_def demo_defs)



subsection \<open>Facts about the parser loop\<close>

lemma strip_Nil: "strip [] = []"
  by (simp add: strip_def)

lemma strip_newline: "strip [CHR 0x0A] = []"
  by (simp add: strip_def isspace_def)

lemma stream_loop_append:
  "raised s = None \<Longrightarrow>
     stream_loop fl lg eh (xs @ ys) s =
       (let s' = stream_loop fl lg eh xs s
        in if raised s' = None then stream_loop fl lg eh ys s' else s')"
proof (induction xs arbitrary: s)
  case Nil
  then show ?case by simp
next
  case (Cons x xs)
  obtain n l where x: "x = (n, l)" by (cases x)
  show ?case
  proof (cases "raised (stream_step fl lg eh n l s) = None")
    case True
    show ?thesis by (simp add: x Let_def True Cons.IH [OF True])
  next
    case False
    show ?thesis by (simp add: x Let_def False)
  qed
qed

lemma stream_loop_nonblank:
  "raised s = None \<Longrightarrow> \<forall>l \<in> set src. strip l \<noteq> [] \<Longrightarrow>
     stream_loop fl lg eh (enumerate n src) s = s\<lparr>string_buffer := string_buffer s @ src\<rparr>"
proof (induction src arbitrary: n s)
  case Nil
  then show ?case by simp
next
  case (Cons l src)
  let ?s = "s\<lparr>string_buffer := string_buffer s @ [l]\<rparr>"
  from Cons.prems have step: "stream_step fl lg eh n l s = ?s"
    by (simp add: stream_step_def)
  from Cons.prems have "raised ?s = None" by simp
  from Cons.IH [OF this, of "Suc n"] Cons.prems step show ?case
    by (simp add: Let_def)
qed

lemma stream_step_blank_buffer:
  "strip l = [] \<Longrightarrow> string_buffer (stream_step fl lg eh n l s) = []"
  by (simp add: stream_step_def Let_def split: sum.splits prod.splits)

lemma strip_nonempty: "strip l \<noteq> [] \<Longrightarrow> l \<noteq> []"
  using strip_Nil by auto

lemma stream_prefix_state:
  assumes boundary: "pre = [] \<or> strip (last pre) = []"
    and first: "raised (stream fl lg eh pre) = None"
  shows "stream_loop fl lg eh (enumerate 0 pre)
           \<lparr>string_buffer = [], yielded = [], stderr = [], raised = None\<rparr>
         = stream fl lg eh pre
       \<and> string_buffer (stream fl lg eh pre) = []"
proof -
  let ?init = "\<lparr>string_buffer = [], yielded = [], stderr = [], raised = None\<rparr>"
  let ?s1 = "stream_loop fl lg eh (enumerate 0 pre) ?init"
  have split: "stream fl lg eh pre =
      (if raised ?s1 = None then stream_loop fl lg eh [(length pre, [CHR 0x0A])] ?s1 else ?s1)"
    unfolding stream_def enumerate_append_eq
    by (subst stream_loop_append) (simp_all add: Let_def)
  have r1: "raised ?s1 = None"
  proof (rule ccontr)
    assume "raised ?s1 \<noteq> None"
    with split have "stream fl lg eh pre = ?s1" by simp
    with first \<open>raised ?s1 \<noteq> None\<close> show False by simp
  qed
  have b1: "string_buffer ?s1 = []"
  proof (cases "pre = []")
    case True
    then show ?thesis by simp
  next
    case False
    with boundary have blank: "strip (last pre) = []" by simp
    from False have pre: "pre = butlast pre @ [last pre]" by simp
    let ?s0 = "stream_loop fl lg eh (enumerate 0 (butlast pre)) ?init"
    have "?s1 = stream_loop fl lg eh
                  (enumerate 0 (butlast pre) @ [(length (butlast pre), last pre)]) ?init"
      by (subst pre) (simp add: enumerate_append_eq)
    also have "\<dots> = (if raised ?s0 = None
                      then stream_loop fl lg eh [(length (butlast pre), last pre)] ?s0 else ?s0)"
      by (subst stream_loop_append) (simp_all add: Let_def)
    finally have s1: "?s1 = (if raised ?s0 = None
                      then stream_loop fl lg eh [(length (butlast pre), last pre)] ?s0 else ?s0)" .
    have r0: "raised ?s0 = None"
    proof (rule ccontr)
      assume n: "raised ?s0 \<noteq> None"
      with s1 have "?s1 = ?s0" by simp
      with r1 n show False by simp
    qed
    with s1 have "?s1 = stream_loop fl lg eh [(length (butlast pre), last pre)] ?s0" by simp
    then have "?s1 = stream_step fl lg eh (length (butlast pre)) (last pre) ?s0"
      by (simp add: Let_def)
    with stream_step_blank_buffer [OF blank] show ?thesis by simp
  qed
  have "stream_step fl lg eh (length pre) [CHR 0x0A] ?s1 = ?s1"
    using b1 by (simp add: stream_step_def strip_newline Let_def)
  with split r1 have "stream fl lg eh pre = ?s1" by (simp add: Let_def)
  with b1 show ?thesis by simp
qed

subsection \<open>The \<^verbatim>\<open>ERROR_RAISE\<close> policy\<close>

text \<open>
  C4. Let the lines fed to the loop (the source and the added newline) be \<open>pre\<close>, then a block
  \<open>source\<close> of non-blank lines, then a blank line, then anything; let \<open>pre\<close> end at a block
  boundary and parse without an exception, and let \<^verbatim>\<open>from_lines\<close> raise an \<^verbatim>\<open>Error\<close> on
  \<open>source\<close>: the block is the first malformed one. Under \<^verbatim>\<open>ERROR_RAISE\<close> the generator then
  ends with that error, whatever follows the block; the error's \<^verbatim>\<open>args\<close> are the 0-based
  index of the blank line that closes the block, the arguments the error had, and the raw text
  of the block; and the records yielded are those that \<open>pre\<close> yields, none lost.
\<close>

theorem stream_raise_first_malformed:
  assumes lines: "source_file @ [[CHR 0x0A]] = pre @ source @ blank # post"
    and boundary: "pre = [] \<or> strip (last pre) = []"
    and block: "source \<noteq> []" "\<forall>l \<in> set source. strip l \<noteq> []" "strip blank = []"
    and first: "raised (stream from_lines log_error ERROR_RAISE pre) = None"
    and malformed: "from_lines source = Inl error" "is_Error error"
  shows "stream from_lines log_error ERROR_RAISE source_file =
           (stream from_lines log_error ERROR_RAISE pre)
             \<lparr>raised := Some (error\<lparr>args := PyInt (int (length pre + length source))
                                          # args error @ [PyStr (concat source)]\<rparr>)\<rparr>"
proof -
  let ?init = "\<lparr>string_buffer = [], yielded = [], stderr = [], raised = None\<rparr>"
  let ?P = "stream_loop from_lines log_error ERROR_RAISE"
  let ?s1 = "stream from_lines log_error ERROR_RAISE pre"
  let ?s2 = "?s1\<lparr>string_buffer := string_buffer ?s1 @ source\<rparr>"
  let ?n = "length pre + length source"
  from stream_prefix_state [OF boundary first]
  have p: "?P (enumerate 0 pre) ?init = ?s1" and b1: "string_buffer ?s1 = []"
    by simp_all
  have e: "enumerate 0 (source_file @ [[CHR 0x0A]])
             = enumerate 0 pre @ enumerate (length pre) source
                 @ (?n, blank) # enumerate (Suc ?n) post"
    unfolding lines by (simp add: enumerate_append_eq)
  have "stream from_lines log_error ERROR_RAISE source_file
          = ?P (enumerate 0 pre @ enumerate (length pre) source
                  @ (?n, blank) # enumerate (Suc ?n) post) ?init"
    unfolding stream_def e ..
  also have "\<dots> = ?P (enumerate (length pre) source @ (?n, blank) # enumerate (Suc ?n) post) ?s1"
    by (subst stream_loop_append) (simp_all add: p first Let_def)
  also have "\<dots> = ?P ((?n, blank) # enumerate (Suc ?n) post) ?s2"
    using first block(2)
    by (subst stream_loop_append) (simp_all add: stream_loop_nonblank Let_def)
  also have "\<dots> = ?s1\<lparr>raised := Some (error\<lparr>args := PyInt (int ?n)
                                          # args error @ [PyStr (concat source)]\<rparr>)\<rparr>"
  proof -
    have all: "list_all (\<lambda>l. l \<noteq> []) source"
      using block(2) strip_nonempty by (auto simp: list_all_iff)
    have "stream_step from_lines log_error ERROR_RAISE ?n blank ?s2
            = ?s1\<lparr>raised := Some (error\<lparr>args := PyInt (int ?n)
                                          # args error @ [PyStr (concat source)]\<rparr>)\<rparr>"
      using block(1,3) all malformed b1
      by (simp add: stream_step_def handle_error_def Let_def)
    then show ?thesis by (simp add: Let_def)
  qed
  finally show ?thesis .
qed

lemma demo_prefix:
  "stream demo_from_lines (\<lambda>e n. ([], None)) ERROR_RAISE (take 4 demo_lines)
     = \<lparr>string_buffer = [],
        yielded = [\<lparr>index = 0, start = \<lparr>ordinal = 0\<rparr>, end' = \<lparr>ordinal = 0\<rparr>,
                     text' = ''Hello\<newline>'', lang_map = []\<rparr>],
        stderr = [], raised = None\<rparr>"
  by (simp add: stream_def demo_lines_def demo_from_lines_def stream_step_def strip_def
        isspace_def Let_def)

text \<open>
  The input of the specification's scenario under \<^verbatim>\<open>ERROR_RAISE\<close>: one record is yielded, then
  the error of the block \<^verbatim>\<open>BAD\<close> is raised with the line index 5 and the block's text.
\<close>

theorem stream_raise_first_malformed_witness:
  "stream demo_from_lines (\<lambda>e n. ([], None)) ERROR_RAISE demo_lines
     = \<lparr>string_buffer = [],
        yielded = [\<lparr>index = 0, start = \<lparr>ordinal = 0\<rparr>, end' = \<lparr>ordinal = 0\<rparr>,
                     text' = ''Hello\<newline>'', lang_map = []\<rparr>],
        stderr = [],
        raised = Some \<lparr>is_Error = True, type_name = ''InvalidItem'',
                        args = [PyInt 5, PyStr ''BAD\<newline>'']\<rparr>\<rparr>"
proof -
  have lines: "demo_lines @ [[CHR 0x0A]]
                 = take 4 demo_lines @ [''BAD\<newline>''] @ ''\<newline>'' # drop 6 demo_lines @ [[CHR 0x0A]]"
    by (simp add: demo_lines_def)
  have boundary: "take 4 demo_lines = [] \<or> strip (last (take 4 demo_lines)) = []"
    by (simp add: demo_lines_def strip_def isspace_def)
  have block: "[''BAD\<newline>''] \<noteq> []" "\<forall>l \<in> set [''BAD\<newline>'']. strip l \<noteq> []"
    "strip ''\<newline>'' = []"
    by (simp_all add: strip_def isspace_def)
  have first: "raised (stream demo_from_lines (\<lambda>e n. ([], None)) ERROR_RAISE (take 4 demo_lines))
                 = None"
    by (simp add: demo_prefix)
  have malformed: "demo_from_lines [''BAD\<newline>'']
                     = Inl \<lparr>is_Error = True, type_name = ''InvalidItem'', args = []\<rparr>"
    "is_Error \<lparr>is_Error = True, type_name = ''InvalidItem'', args = []\<rparr>"
    by (simp_all add: demo_from_lines_def)
  have len: "length demo_lines = 10"
    by (simp add: demo_lines_def)
  from stream_raise_first_malformed [OF lines boundary block first malformed]
  show ?thesis by (simp add: demo_prefix len)
qed

end
